theory Spec2Isabelle
  imports Main
begin

section \<open>Values shared by both stream components\<close>

text \<open>
  The terminal states of the readable side of a stream.  A stream starts \<open>Readable\<close>
  and reaches \<open>Closed\<close> (clean end) or \<open>Errored\<close> (with the stored error) at most once.
\<close>

datatype 'e stream_state = Readable | Closed | Errored 'e

text \<open>
  A template literal \<^verbatim>\<open>${n}\<close> renders a number in decimal.  The rendering below gives
  every digit of the integer, which is what JavaScript prints for the integers it
  represents exactly, those of magnitude up to \<open>2^53\<close>; beyond, JavaScript rounds the
  digits, and the rendering is outside this model like the numbers themselves.
\<close>

definition digit :: "nat \<Rightarrow> char" where
  "digit d = ''0123456789'' ! d"

fun decimal :: "nat \<Rightarrow> string" where
  "decimal n = (if 10 \<le> n then decimal (n div 10) @ [digit (n mod 10)] else [digit n])"

definition number_string :: "int \<Rightarrow> string" where
  "number_string x = (if 0 \<le> x then decimal (nat x) else CHR ''-'' # decimal (nat (- x)))"

section \<open>LimitedTransformStream\<close>

text \<open>
  \<^verbatim>\<open>export interface LimitedTransformStreamOptions { error?: boolean; }\<close>

  The field is optional, so it is absent (\<open>None\<close>) or a boolean.
\<close>

record LimitedTransformStreamOptions =
  error :: "bool option"

text \<open>\<^verbatim>\<open>if (options.error)\<close>: an absent field is \<^verbatim>\<open>undefined\<close>, which is falsy.\<close>

definition truthy :: "bool option \<Rightarrow> bool" where
  "truthy b = (case b of None \<Rightarrow> False | Some v \<Rightarrow> v)"

text \<open>The only error the class throws itself: \<^verbatim>\<open>new RangeError(message)\<close>.\<close>

datatype js_error = RangeError string

text \<open>
  An instance of the class.  \<open>read\<close> is the private field \<^verbatim>\<open>#read\<close>; \<open>size_lts\<close> and
  \<open>options\<close> are the constructor arguments the \<^verbatim>\<open>transform\<close> closure captures.  The
  readable side of the underlying \<^verbatim>\<open>TransformStream\<close> is kept as the list of chunks
  handed to \<^verbatim>\<open>controller.enqueue\<close> (oldest first) and its state.

  The counter and the size are JavaScript numbers; they are modelled as mathematical
  integers, which is exact as long as they stay below \<open>2^53\<close>.
\<close>

record 'a limited_transform_stream =
  read :: int
  size_lts :: int
  options :: LimitedTransformStreamOptions
  enqueued :: "'a list"
  readable :: "js_error stream_state"

text \<open>
  \<^verbatim>\<open>constructor(size: number, options: LimitedTransformStreamOptions = { error: false })\<close>

  The constructor checks nothing: it stores its arguments and starts the counter at 0.
\<close>

definition LimitedTransformStream ::
  "int \<Rightarrow> LimitedTransformStreamOptions option \<Rightarrow> 'a limited_transform_stream" where
  "LimitedTransformStream size' opts =
     \<lparr> read = 0,
       size_lts = size',
       options = (case opts of None \<Rightarrow> \<lparr> error = Some False \<rparr> | Some o' \<Rightarrow> o'),
       enqueued = [],
       readable = Readable \<rparr>"

definition limit_message :: "int \<Rightarrow> string" where
  "limit_message size' =
     ''Exceeded chunk limit of '' @ [CHR 0x27] @ number_string size' @ [CHR 0x27]"

text \<open>
  The \<^verbatim>\<open>transform\<close> callback.  The first component of the result is the exception the
  callback throws, if any.
  \<^verbatim>\<open>
  transform: (chunk, controller) => {
    if ((this.#read + 1) > size) {
      if (options.error) {
        throw new RangeError(`Exceeded chunk limit of '${size}'`);
      } else {
        controller.terminate();
      }
    } else {
      this.#read++;
      controller.enqueue(chunk);
    }
  }
  \<close>
\<close>

definition transform ::
  "'a \<Rightarrow> 'a limited_transform_stream \<Rightarrow> js_error option \<times> 'a limited_transform_stream" where
  "transform chunk s =
     (if read s + 1 > size_lts s then
        (if truthy (error (options s)) then
           (Some (RangeError (limit_message (size_lts s))), s)
         else
           (None, s\<lparr> readable := Closed \<rparr>))
      else
        (None, s\<lparr> read := read s + 1, enqueued := enqueued s @ [chunk] \<rparr>))"

text \<open>
  The host's \<^verbatim>\<open>TransformStream\<close>: a chunk written to the writable side is given to
  \<^verbatim>\<open>transform\<close> only while the stream is live; an exception thrown by \<^verbatim>\<open>transform\<close>
  errors the stream; \<^verbatim>\<open>controller.terminate()\<close> closes the readable side, after which no
  written chunk reaches \<^verbatim>\<open>transform\<close>.  Closing the writable side at the end of the
  input closes a readable side that is still live.
\<close>

definition write_chunk :: "'a \<Rightarrow> 'a limited_transform_stream \<Rightarrow> 'a limited_transform_stream" where
  "write_chunk chunk s =
     (if readable s = Readable then
        (case transform chunk s of
           (None, s') \<Rightarrow> s'
         | (Some e, s') \<Rightarrow> s'\<lparr> readable := Errored e \<rparr>)
      else s)"

fun write_all :: "'a list \<Rightarrow> 'a limited_transform_stream \<Rightarrow> 'a limited_transform_stream" where
  "write_all [] s = s"
| "write_all (chunk # chunks) s = write_all chunks (write_chunk chunk s)"

definition close_writer :: "'a limited_transform_stream \<Rightarrow> 'a limited_transform_stream" where
  "close_writer s = (if readable s = Readable then s\<lparr> readable := Closed \<rparr> else s)"

text \<open>\<^verbatim>\<open>ReadableStream.from(chunks).pipeThrough(s)\<close>, drained to its end.\<close>

definition pipeThrough :: "'a list \<Rightarrow> 'a limited_transform_stream \<Rightarrow> 'a limited_transform_stream" where
  "pipeThrough chunks s = close_writer (write_all chunks s)"

section \<open>earlyZipReadableStreams\<close>

subsection \<open>The host's source streams\<close>

text \<open>
  A cancellation reason and a rejection reason are arbitrary JavaScript values; the
  merger itself builds one kind, a string, and the host throws a \<^verbatim>\<open>TypeError\<close> when its
  controller is used on a stream that is no longer readable.
\<close>

datatype 'v js_any = JsString string | JsTypeError | JsValue 'v

text \<open>How a source finishes once its chunks are used up: it closes, or it errors.\<close>

datatype 'v ending = EndOfStream | SourceError "'v js_any"

text \<open>
  A source \<^verbatim>\<open>ReadableStream\<close> seen through its reader: the chunks it still has to
  yield, how it ends, whether it has been released by \<^verbatim>\<open>cancel\<close>, how long (in ticks
  of a logical clock) a \<^verbatim>\<open>read()\<close> and a \<^verbatim>\<open>cancel()\<close> take to settle, and whether
  \<^verbatim>\<open>cancel()\<close> fulfils (\<open>None\<close>) or rejects.
\<close>

record ('a, 'v) reader =
  chunks :: "'a list"
  ending :: "'v ending"
  released :: bool
  read_latency :: nat
  cancel_latency :: nat
  cancel_failure :: "'v js_any option"

text \<open>What the promise of \<^verbatim>\<open>reader.read()\<close> settles to: \<^verbatim>\<open>{ done, value }\<close> or a rejection.\<close>

datatype ('a, 'v) read_result = ReadValue 'a | ReadDone | ReadRejected "'v js_any"

definition reader_read :: "('a, 'v) reader \<Rightarrow> ('a, 'v) read_result \<times> ('a, 'v) reader" where
  "reader_read r =
     (if released r then (ReadDone, r)
      else case chunks r of
             x # xs \<Rightarrow> (ReadValue x, r\<lparr> chunks := xs \<rparr>)
           | [] \<Rightarrow> (case ending r of
                     EndOfStream \<Rightarrow> (ReadDone, r)
                   | SourceError e \<Rightarrow> (ReadRejected e, r)))"

definition reader_cancel :: "('a, 'v) reader \<Rightarrow> ('a, 'v) reader" where
  "reader_cancel r = r\<lparr> released := True \<rparr>"

text \<open>
  \<^verbatim>\<open>Promise.all\<close> over promises given by their settling time and outcome (\<open>None\<close>:
  fulfilled).  It rejects as soon as one of them rejects, with that rejection; it
  fulfils once all of them have fulfilled.  Of two rejections settling at the same time
  the one earlier in the list wins.
\<close>

fun first_rejection :: "(nat \<times> 'e option) list \<Rightarrow> (nat \<times> 'e) option" where
  "first_rejection [] = None"
| "first_rejection ((t, None) # ps) = first_rejection ps"
| "first_rejection ((t, Some e) # ps) =
     (case first_rejection ps of
        None \<Rightarrow> Some (t, e)
      | Some (t', e') \<Rightarrow> if t' < t then Some (t', e') else Some (t, e))"

definition Promise_all :: "nat \<Rightarrow> (nat \<times> 'e option) list \<Rightarrow> nat \<times> 'e option" where
  "Promise_all t ps =
     (case first_rejection ps of
        Some (t', e) \<Rightarrow> (t', Some e)
      | None \<Rightarrow> (fold max (map fst ps) t, None))"

subsection \<open>The merged stream\<close>

text \<open>
  What happened on the sources, in program order: a \<^verbatim>\<open>read()\<close> or a \<^verbatim>\<open>cancel(reason)\<close>
  on the reader at index \<open>source\<close>, with the time the call was issued and the time its
  promise settled.
\<close>

datatype 'v event =
    ReadEv (source: nat) (issued: nat) (settled: nat)
  | CancelEv (source: nat) (reason: "'v js_any") (issued: nat) (settled: nat)

text \<open>
  The stream the function returns: the readers its closure holds, the new
  \<^verbatim>\<open>ReadableStream\<close>, the logical clock and the log of source operations.  Of the new
  stream, \<open>delivered\<close> are the chunks the consumer has read and \<open>queue\<close> the chunks handed
  to \<^verbatim>\<open>controller.enqueue\<close> that it has not read yet (the host's internal queue), both
  oldest first.  \<open>state = Closed\<close> says that \<^verbatim>\<open>controller.close()\<close> has been called or the
  stream cancelled: the consumer still reads what is queued, and the host reports the
  end once the queue is empty.  Erroring or cancelling the stream empties its queue.
\<close>

record ('a, 'v) zip_stream =
  readers :: "('a, 'v) reader list"
  delivered :: "'a list"
  queue :: "'a list"
  state :: "'v js_any stream_state"
  now :: nat
  trace :: "'v event list"

text \<open>
  \<^verbatim>\<open>const readers = streams.map((stream) => stream.getReader());\<close>

  The streams are taken to be unlocked, so that \<^verbatim>\<open>getReader\<close> succeeds; a stream and
  its reader are the same record.
\<close>

definition earlyZipReadableStreams :: "('a, 'v) reader list \<Rightarrow> ('a, 'v) zip_stream" where
  "earlyZipReadableStreams streams =
     \<lparr> readers = streams, delivered = [], queue = [], state = Readable, now = 0, trace = [] \<rparr>"

text \<open>
  \<^verbatim>\<open>await readers[i]!.read()\<close>: the call is issued now, and the function resumes when
  the promise has settled.
\<close>

definition read_reader ::
  "nat \<Rightarrow> ('a, 'v) zip_stream \<Rightarrow> ('a, 'v) read_result \<times> ('a, 'v) zip_stream" where
  "read_reader i st =
     (let r = readers st ! i;
          t = now st + read_latency r
      in (fst (reader_read r),
          st\<lparr> readers := (readers st)[i := snd (reader_read r)],
              now := t,
              trace := trace st @ [ReadEv i (now st) t] \<rparr>))"

text \<open>
  \<^verbatim>\<open>await Promise.all(readers.map((reader) => reader.cancel(reason)))\<close>: \<^verbatim>\<open>map\<close> calls
  \<^verbatim>\<open>cancel\<close> on every reader before anything is awaited, so all calls are issued at the
  same time; the function resumes when \<^verbatim>\<open>Promise.all\<close> has settled.  The first
  component is the rejection the \<^verbatim>\<open>await\<close> throws, if any.
\<close>

definition cancel_readers ::
  "'v js_any \<Rightarrow> ('a, 'v) zip_stream \<Rightarrow> 'v js_any option \<times> ('a, 'v) zip_stream" where
  "cancel_readers reason' st =
     (let t0 = now st;
          all = Promise_all t0 (map (\<lambda>r. (t0 + cancel_latency r, cancel_failure r)) (readers st))
      in (snd all,
          st\<lparr> readers := map reader_cancel (readers st),
              now := fst all,
              trace := trace st @
                map (\<lambda>(i, r). CancelEv i reason' t0 (t0 + cancel_latency r))
                    (enumerate 0 (readers st)) \<rparr>))"

definition ended_message :: "nat \<Rightarrow> string" where
  "ended_message i = ''Stream at index '' @ decimal i @ '' ended''"

text \<open>
  \<^verbatim>\<open>controller.enqueue(value)\<close> and \<^verbatim>\<open>controller.close()\<close>: the host throws a
  \<^verbatim>\<open>TypeError\<close> when the stream is not readable any more.
\<close>

definition controller_enqueue ::
  "'a \<Rightarrow> ('a, 'v) zip_stream \<Rightarrow> 'v js_any option \<times> ('a, 'v) zip_stream" where
  "controller_enqueue v st =
     (if state st = Readable then (None, st\<lparr> queue := queue st @ [v] \<rparr>)
      else (Some JsTypeError, st))"

definition controller_close ::
  "('a, 'v) zip_stream \<Rightarrow> 'v js_any option \<times> ('a, 'v) zip_stream" where
  "controller_close st =
     (if state st = Readable then (None, st\<lparr> state := Closed \<rparr>)
      else (Some JsTypeError, st))"

text \<open>
  What \<^verbatim>\<open>pull\<close> does once the read of reader \<open>i\<close> has reported \<^verbatim>\<open>done\<close>; \<open>close_after\<close> is
  the part that runs when the \<^verbatim>\<open>await\<close> of the cancellations is over, with the rejection
  it throws, if any.
  \<^verbatim>\<open>
  if (done) {
    await Promise.all(
      readers.map((reader) => reader.cancel(`Stream at index ${i} ended`)),
    );
    controller.close();
    return;
  }
  \<close>
\<close>

definition close_after ::
  "'v js_any option \<Rightarrow> ('a, 'v) zip_stream \<Rightarrow> 'v js_any option \<times> ('a, 'v) zip_stream" where
  "close_after rejection st =
     (case rejection of Some e \<Rightarrow> (Some e, st) | None \<Rightarrow> controller_close st)"

definition on_done ::
  "nat \<Rightarrow> ('a, 'v) zip_stream \<Rightarrow> 'v js_any option \<times> ('a, 'v) zip_stream" where
  "on_done i st =
     (let b = cancel_readers (JsString (ended_message i)) st
      in close_after (fst b) (snd b))"

text \<open>
  The loop of \<^verbatim>\<open>pull\<close>, from index \<open>i\<close> on.  The first component is the rejection of
  the promise \<^verbatim>\<open>pull\<close> returns, if any.
  \<^verbatim>\<open>
  for (let i = 0; i < readers.length; ++i) {
    const { done, value } = await readers[i]!.read();
    if (done) { ... return; }
    controller.enqueue(value);
  }
  \<close>
\<close>

function pull_from ::
  "nat \<Rightarrow> ('a, 'v) zip_stream \<Rightarrow> 'v js_any option \<times> ('a, 'v) zip_stream" where
  "pull_from i st =
     (if i < length (readers st) then
        (case read_reader i st of
           (ReadRejected e, st') \<Rightarrow> (Some e, st')
         | (ReadDone, st') \<Rightarrow> on_done i st'
         | (ReadValue v, st') \<Rightarrow>
             (case controller_enqueue v st' of
                (Some e, st'') \<Rightarrow> (Some e, st'')
              | (None, st'') \<Rightarrow> pull_from (i + 1) st''))
      else (None, st))"
  by pat_completeness auto
termination
  by (relation "measure (\<lambda>(i, st). length (readers st) - i)")
     (auto simp: read_reader_def controller_enqueue_def Let_def split: if_splits)

declare pull_from.simps [simp del]

definition pull :: "('a, 'v) zip_stream \<Rightarrow> 'v js_any option \<times> ('a, 'v) zip_stream" where
  "pull st = pull_from 0 st"

text \<open>
  \<^verbatim>\<open>async cancel(reason) { await Promise.all(readers.map((reader) => reader.cancel(reason))); }\<close>
\<close>

definition cancel ::
  "'v js_any \<Rightarrow> ('a, 'v) zip_stream \<Rightarrow> 'v js_any option \<times> ('a, 'v) zip_stream" where
  "cancel reason' st = cancel_readers reason' st"

subsection \<open>The host's \<^verbatim>\<open>ReadableStream\<close> around \<^verbatim>\<open>pull\<close> and \<^verbatim>\<open>cancel\<close>\<close>

text \<open>
  The consumer reads what is queued.  An errored stream has nothing to hand out.
\<close>

definition consume :: "('a, 'v) zip_stream \<Rightarrow> ('a, 'v) zip_stream" where
  "consume st =
     (case state st of
        Errored e \<Rightarrow> st\<lparr> queue := [] \<rparr>
      | _ \<Rightarrow> st\<lparr> delivered := delivered st @ queue st, queue := [] \<rparr>)"

text \<open>
  The stream is built with the default strategy (high-water mark 1), so the host calls
  \<^verbatim>\<open>pull\<close> only on a readable stream whose queue the consumer has emptied, and not
  again before the promise of the previous call has settled.  While a pull runs the
  consumer is not taken to read.  A rejected promise errors a stream that is still
  readable, and the host then drops what is queued.
\<close>

definition stream_pull :: "('a, 'v) zip_stream \<Rightarrow> ('a, 'v) zip_stream" where
  "stream_pull st =
     (if state st = Readable then
        (case pull (consume st) of
           (None, st') \<Rightarrow> st'
         | (Some e, st') \<Rightarrow>
             if state st' = Readable then st'\<lparr> state := Errored e, queue := [] \<rparr> else st')
      else st)"

text \<open>
  The consumer's \<^verbatim>\<open>cancel(reason)\<close> on the merged stream, between two pulls.  Nothing
  happens on a stream that has ended (closed, and its queue read to the end); an errored
  one rejects with its stored error.  Otherwise, also when \<^verbatim>\<open>controller.close()\<close> has been
  called and chunks are still queued, the host closes the stream, drops what is queued
  and runs the \<^verbatim>\<open>cancel\<close> callback, whose rejection is the caller's.
\<close>

definition stream_cancel ::
  "'v js_any \<Rightarrow> ('a, 'v) zip_stream \<Rightarrow> 'v js_any option \<times> ('a, 'v) zip_stream" where
  "stream_cancel reason' st =
     (case state st of
        Errored e \<Rightarrow> (Some e, st)
      | Closed \<Rightarrow> if queue st = [] then (None, st) else cancel reason' (st\<lparr> queue := [] \<rparr>)
      | Readable \<Rightarrow> cancel reason' (st\<lparr> state := Closed, queue := [] \<rparr>))"

text \<open>
  The consumer's \<^verbatim>\<open>cancel(reason)\<close> while \<^verbatim>\<open>pull\<close> is suspended.  \<^verbatim>\<open>pull\<close> has two
  suspension points.

  At \<^verbatim>\<open>await readers[i]!.read()\<close>, in the state \<open>st\<close> the loop has reached at index \<open>i\<close>:
  the read has been issued and is pending.  The host closes the merged stream and runs
  the \<^verbatim>\<open>cancel\<close> callback, which cancels every reader; cancelling reader \<open>i\<close> settles its
  pending read with \<^verbatim>\<open>done\<close> at once, so \<^verbatim>\<open>pull\<close> resumes in its \<^verbatim>\<open>if (done)\<close> branch
  while the callback's cancellations are still pending.  The host drops the outcome of a
  pull on a stream that is no longer readable.  The result is the outcome of the
  consumer's call and the stream once everything has settled.
\<close>

definition cancel_during_read ::
  "nat \<Rightarrow> 'v js_any \<Rightarrow> ('a, 'v) zip_stream \<Rightarrow> 'v js_any option \<times> ('a, 'v) zip_stream" where
  "cancel_during_read i reason' st =
     (let t0 = now st;
          c = stream_cancel reason' (st\<lparr> trace := trace st @ [ReadEv i t0 t0] \<rparr>);
          p = on_done i ((snd c)\<lparr> now := t0 \<rparr>)
      in (fst c, (snd p)\<lparr> now := max (now (snd c)) (now (snd p)) \<rparr>))"

text \<open>
  At \<^verbatim>\<open>await Promise.all(...)\<close>, in the state \<open>st\<close> in which the read of reader \<open>i\<close> has
  reported \<^verbatim>\<open>done\<close>: the cancellations of \<^verbatim>\<open>pull\<close> have been issued and are pending.  The
  host closes the merged stream and runs the \<^verbatim>\<open>cancel\<close> callback; \<^verbatim>\<open>pull\<close> resumes at
  \<^verbatim>\<open>controller.close()\<close> when its own cancellations have settled.
\<close>

definition cancel_during_batch ::
  "nat \<Rightarrow> 'v js_any \<Rightarrow> ('a, 'v) zip_stream \<Rightarrow> 'v js_any option \<times> ('a, 'v) zip_stream" where
  "cancel_during_batch i reason' st =
     (let t0 = now st;
          b = cancel_readers (JsString (ended_message i)) st;
          c = stream_cancel reason' ((snd b)\<lparr> now := t0 \<rparr>);
          p = close_after (fst b) (snd c)
      in (fst c, (snd p)\<lparr> now := max (now (snd b)) (now (snd c)) \<rparr>))"

text \<open>
  Draining the merged stream (\<^verbatim>\<open>Array.fromAsync(zippedStream)\<close>): the consumer reads
  until the stream reaches a terminal state, and to the end of what is queued then.  A
  drain that never gets there does not return, which is the value \<open>None\<close>.
\<close>

partial_function (option) drain :: "('a, 'v) zip_stream \<Rightarrow> ('a, 'v) zip_stream option" where
  "drain st = (if state st = Readable then drain (stream_pull st) else Some (consume st))"

declare drain.simps [code]

text \<open>
  The \<^verbatim>\<open>read()\<close> events and the \<^verbatim>\<open>cancel()\<close> events of a log, and of the latter the
  calls as they were made: which reader, with what reason, and when.
\<close>

definition reads :: "'v event list \<Rightarrow> 'v event list" where
  "reads tr = filter is_ReadEv tr"

definition cancels :: "'v event list \<Rightarrow> 'v event list" where
  "cancels tr = filter (\<lambda>e. \<not> is_ReadEv e) tr"

definition cancel_calls :: "'v event list \<Rightarrow> (nat \<times> 'v js_any \<times> nat) list" where
  "cancel_calls tr = map (\<lambda>e. (source e, reason e, issued e)) (cancels tr)"

section \<open>Notions used to state the properties\<close>

text \<open>The error option as the constructor's caller gave it: on, or off (also by default).\<close>

definition error_option :: "LimitedTransformStreamOptions option \<Rightarrow> bool" where
  "error_option opts = (case opts of None \<Rightarrow> False | Some o' \<Rightarrow> truthy (error o'))"

text \<open>The terminal state the over-limit branch of \<^verbatim>\<open>transform\<close> leads to.\<close>

definition over_state :: "'a limited_transform_stream \<Rightarrow> js_error stream_state" where
  "over_state s =
     (if truthy (error (options s)) then Errored (RangeError (limit_message (size_lts s)))
      else Closed)"

text \<open>A reader after one successful \<^verbatim>\<open>read()\<close>: its first chunk is gone.\<close>

definition advance :: "('a, 'v) reader \<Rightarrow> ('a, 'v) reader" where
  "advance r = r\<lparr> chunks := tl (chunks r) \<rparr>"

text \<open>Taking one item of each list in turn, \<open>k\<close> times over.\<close>

fun round_robin :: "nat \<Rightarrow> 'a list list \<Rightarrow> 'a list" where
  "round_robin 0 xss = []"
| "round_robin (Suc k) xss = map hd xss @ round_robin k (map tl xss)"

text \<open>
  A list of source operations runs in sequence from time \<open>t\<close> on: each is issued no
  earlier than the one before it has settled.  \<open>last_settled\<close> is the time the last of
  them settled.
\<close>

fun sequential :: "nat \<Rightarrow> 'v event list \<Rightarrow> bool" where
  "sequential t [] = True"
| "sequential t (e # es) = (t \<le> issued e \<and> issued e \<le> settled e \<and> sequential (settled e) es)"

fun last_settled :: "nat \<Rightarrow> 'v event list \<Rightarrow> nat" where
  "last_settled t [] = t"
| "last_settled t (e # es) = last_settled (settled e) es"

text \<open>The operations go round the \<open>n\<close> sources in index order: 0, 1, ..., n-1, 0, 1, ...\<close>

definition cyclic :: "nat \<Rightarrow> 'v event list \<Rightarrow> bool" where
  "cyclic n es = (map source es = map (\<lambda>j. j mod n) [0..<length es])"

text \<open>
  The invariant of the merged stream's reads: they ran in sequence and in cyclic order,
  the clock is past the last of them, and a stream that is still readable has completed
  a whole number of rounds.
\<close>

definition ordered :: "nat \<Rightarrow> ('a, 'v) zip_stream \<Rightarrow> bool" where
  "ordered n st =
     (sequential 0 (reads (trace st)) \<and> last_settled 0 (reads (trace st)) \<le> now st \<and>
      cyclic n (reads (trace st)))"

definition well_ordered :: "nat \<Rightarrow> ('a, 'v) zip_stream \<Rightarrow> bool" where
  "well_ordered n st =
     (ordered n st \<and> length (readers st) = n \<and>
      (state st = Readable \<longrightarrow> n dvd length (reads (trace st))))"

section \<open>The chunk limiter\<close>

lemma write_all_not_Readable: "readable s \<noteq> Readable \<Longrightarrow> write_all cs s = s"
  by (induction cs arbitrary: s) (auto simp: write_chunk_def)

lemma write_chunk_over:
  "readable s = Readable \<Longrightarrow> read s + 1 > size_lts s \<Longrightarrow>
   write_chunk c s = s\<lparr> readable := (if truthy (error (options s)) then Errored (RangeError (limit_message (size_lts s))) else Closed) \<rparr>"
  by (simp add: write_chunk_def transform_def)

lemma write_chunk_under:
  "readable s = Readable \<Longrightarrow> read s + 1 \<le> size_lts s \<Longrightarrow>
   write_chunk c s = s\<lparr> read := read s + 1, enqueued := enqueued s @ [c] \<rparr>"
  by (simp add: write_chunk_def transform_def)

lemma write_all_live:
  "readable s = Readable \<Longrightarrow> read s \<le> size_lts s \<Longrightarrow>
   write_all cs s =
     (if int (length cs) \<le> size_lts s - read s
      then s\<lparr> read := read s + int (length cs), enqueued := enqueued s @ cs \<rparr>
      else s\<lparr> read := size_lts s, enqueued := enqueued s @ take (nat (size_lts s - read s)) cs,
              readable := over_state s \<rparr>)"
proof (induction cs arbitrary: s)
  case Nil
  then show ?case by simp
next
  case (Cons c cs)
  show ?case
  proof (cases "read s + 1 \<le> size_lts s")
    case True
    let ?s = "s\<lparr> read := read s + 1, enqueued := enqueued s @ [c] \<rparr>"
    have w: "write_chunk c s = ?s" using Cons.prems True by (simp add: write_chunk_under)
    have "write_all (c # cs) s = write_all cs ?s" by (simp add: w)
    also have "\<dots> = (if int (length cs) \<le> size_lts ?s - read ?s
      then ?s\<lparr> read := read ?s + int (length cs), enqueued := enqueued ?s @ cs \<rparr>
      else ?s\<lparr> read := size_lts ?s, enqueued := enqueued ?s @ take (nat (size_lts ?s - read ?s)) cs,
              readable := over_state ?s \<rparr>)"
      using Cons.prems True by (intro Cons.IH) auto
    finally have step: "write_all (c # cs) s = (if int (length cs) \<le> size_lts s - (read s + 1)
      then s\<lparr> read := read s + 1 + int (length cs), enqueued := enqueued s @ c # cs \<rparr>
      else s\<lparr> read := size_lts s, enqueued := enqueued s @ c # take (nat (size_lts s - (read s + 1))) cs,
              readable := over_state s \<rparr>)"
      by (simp add: over_state_def)
    have n: "nat (size_lts s - read s) = Suc (nat (size_lts s - (read s + 1)))"
      using True by simp
    show ?thesis unfolding step n by (auto simp: add.assoc)
  next
    case False
    then have eq: "read s = size_lts s" using Cons.prems by simp
    have "write_chunk c s = s\<lparr> readable := over_state s \<rparr>"
      using Cons.prems False by (simp add: write_chunk_over over_state_def)
    moreover have "readable (s\<lparr> readable := over_state s \<rparr>) \<noteq> Readable"
      by (simp add: over_state_def)
    ultimately have "write_all (c # cs) s = s\<lparr> readable := over_state s \<rparr>"
      by (simp add: write_all_not_Readable)
    then show ?thesis using eq by simp
  qed
qed


lemma new_fields [simp]:
  "read (LimitedTransformStream k opts) = 0"
  "size_lts (LimitedTransformStream k opts) = k"
  "enqueued (LimitedTransformStream k opts) = []"
  "readable (LimitedTransformStream k opts) = Readable"
  "truthy (error (options (LimitedTransformStream k opts))) = error_option opts"
  by (auto simp: LimitedTransformStream_def error_option_def truthy_def split: option.splits)

lemma over_state_new [simp]:
  "over_state (LimitedTransformStream k opts) =
     (if error_option opts then Errored (RangeError (limit_message k)) else Closed)"
  by (simp add: over_state_def)

text \<open>
  Claim C2.  A limiter built with a positive size \<open>k\<close> and fed \<open>m\<close> chunks: with
  \<open>m \<le> k\<close> it emits all of them; with \<open>m > k\<close> and the error option off it emits the
  first \<open>k\<close> and closes cleanly; with \<open>m > k\<close> and the error option on it emits the first
  \<open>k\<close> and fails with the limit-exceeded error.  It never emits more than \<open>k\<close> chunks.
\<close>

theorem limited_output:
  assumes "0 < k"
  shows "let s = pipeThrough input (LimitedTransformStream k opts) in
     (int (length input) \<le> k \<longrightarrow> enqueued s = input \<and> readable s = Closed) \<and>
     (k < int (length input) \<and> \<not> error_option opts \<longrightarrow>
        enqueued s = take (nat k) input \<and> readable s = Closed) \<and>
     (k < int (length input) \<and> error_option opts \<longrightarrow>
        enqueued s = take (nat k) input \<and> readable s = Errored (RangeError (limit_message k))) \<and>
     int (length (enqueued s)) \<le> k"
proof -
  let ?s0 = "LimitedTransformStream k opts :: 'a limited_transform_stream"
  have live: "readable ?s0 = Readable" "read ?s0 \<le> size_lts ?s0" using assms by simp_all
  show ?thesis
    unfolding pipeThrough_def write_all_live [OF live] Let_def
    using assms by (auto simp: close_writer_def)
qed

text \<open>The three cases of C2 on the documented inputs.\<close>

theorem limited_output_witness:
  "(let s = pipeThrough [''1234'', ''5678''] (LimitedTransformStream 2 None) in
      enqueued s = [''1234'', ''5678''] \<and> readable s = Closed) \<and>
   (let s = pipeThrough [''1234'', ''5678''] (LimitedTransformStream 1 None) in
      enqueued s = [''1234''] \<and> readable s = Closed) \<and>
   (let s = pipeThrough [''1234'', ''5678''] (LimitedTransformStream 1 (Some \<lparr> error = Some True \<rparr>)) in
      enqueued s = [''1234''] \<and>
      readable s = Errored (RangeError (''Exceeded chunk limit of '' @ [CHR 0x27] @ ''1'' @ [CHR 0x27])))"
  using limited_output [of 2 "[''1234'', ''5678'']" None]
        limited_output [of 1 "[''1234'', ''5678'']" None]
        limited_output [of 1 "[''1234'', ''5678'']" "Some \<lparr> error = Some True \<rparr>"]
  by (simp add: error_option_def truthy_def limit_message_def number_string_def digit_def Let_def)


lemma write_all_read_le:
  "readable s = Readable \<Longrightarrow> read s \<le> size_lts s \<Longrightarrow> read (write_all cs s) \<le> size_lts s"
  by (simp add: write_all_live)

text \<open>
  Claim C4.  For a positive size \<open>k\<close>, in every state \<open>s\<close> an instance reaches the counter
  is at most \<open>k\<close>, and it still is after one more run of \<^verbatim>\<open>transform\<close>.  The run that
  would take the counter past \<open>k\<close> leaves it as it is and throws (error option on) or
  terminates the stream (error option off); every other run increments it.
\<close>

theorem counter_invariant:
  assumes "0 < k" and "s = write_all input (LimitedTransformStream k opts)"
  shows "read s \<le> k \<and>
         read (snd (transform c s)) \<le> k \<and>
         (k < read s + 1 \<longrightarrow>
            read (snd (transform c s)) = read s \<and>
            (if error_option opts
             then fst (transform c s) = Some (RangeError (limit_message k))
             else fst (transform c s) = None \<and> readable (snd (transform c s)) = Closed)) \<and>
         (read s + 1 \<le> k \<longrightarrow> read (snd (transform c s)) = read s + 1)"
proof -
  let ?s0 = "LimitedTransformStream k opts :: 'a limited_transform_stream"
  have live: "readable ?s0 = Readable" "read ?s0 \<le> size_lts ?s0" using assms by simp_all
  have s: "size_lts s = k" "truthy (error (options s)) = error_option opts"
    unfolding assms(2) write_all_live [OF live] by (simp_all add: over_state_def)
  have le: "read s \<le> k"
    unfolding assms(2) using write_all_read_le [OF live] by simp
  show ?thesis using le s by (simp add: transform_def)
qed

theorem counter_invariant_witness:
  "read (write_all [''a'', ''b'', ''c''] (LimitedTransformStream 2 None)) = 2 \<and>
   read (snd (transform ''d'' (write_all [''a'', ''b'', ''c''] (LimitedTransformStream 2 None)))) = 2 \<and>
   read (snd (transform ''b'' (write_all [''a''] (LimitedTransformStream 2 None)))) = 2"
  using counter_invariant [of 2 _ "[''a'', ''b'', ''c'']" None "''d''", OF _ refl]
        counter_invariant [of 2 _ "[''a'']" None "''b''", OF _ refl]
  by (simp add: write_chunk_def transform_def LimitedTransformStream_def truthy_def)

text \<open>
  Claim C7.  With the error option on, a chunk that would take the counter past the size
  makes \<^verbatim>\<open>transform\<close> throw a \<^verbatim>\<open>RangeError\<close> whose message holds the configured size; the
  stream becomes errored with it, and whatever chunks follow change nothing: neither the
  counter nor the emitted chunks.
\<close>

theorem limit_exceeded_error:
  assumes "truthy (error (options s))" and "size_lts s < read s + 1"
  shows "transform c s =
           (Some (RangeError (''Exceeded chunk limit of '' @ [CHR 0x27] @ number_string (size_lts s) @ [CHR 0x27])), s) \<and>
         (readable s = Readable \<longrightarrow>
            write_all (c # rest) s =
              s\<lparr> readable := Errored (RangeError (''Exceeded chunk limit of '' @ [CHR 0x27] @ number_string (size_lts s) @ [CHR 0x27])) \<rparr>)"
proof -
  have t: "transform c s = (Some (RangeError (limit_message (size_lts s))), s)"
    using assms by (simp add: transform_def)
  have "write_all (c # rest) s = s\<lparr> readable := Errored (RangeError (limit_message (size_lts s))) \<rparr>"
    if "readable s = Readable"
    using that t by (simp add: write_chunk_def write_all_not_Readable)
  then show ?thesis using t by (simp add: limit_message_def)
qed

theorem limit_exceeded_error_witness:
  "(\<lambda>s. (enqueued s, read s, readable s))
     (write_all [''1234'', ''5678'', ''9abc''] (LimitedTransformStream 1 (Some \<lparr> error = Some True \<rparr>))) =
   ([''1234''], 1, Errored (RangeError (''Exceeded chunk limit of '' @ [CHR 0x27] @ ''1'' @ [CHR 0x27])))"
  using limit_exceeded_error [of "write_chunk ''1234'' (LimitedTransformStream 1 (Some \<lparr> error = Some True \<rparr>))" "''5678''" "[''9abc'']"]
  by (simp add: write_chunk_def transform_def LimitedTransformStream_def truthy_def number_string_def digit_def)

text \<open>
  Claim C10.  The constructor accepts a size \<open>k \<le> 0\<close> as it is.  The first chunk then
  takes the over-limit branch, so nothing is ever emitted: the stream closes cleanly when
  the error option is off and fails with the \<^verbatim>\<open>RangeError\<close> when it is on.
\<close>

theorem nonpositive_size:
  assumes "k \<le> 0"
  shows "let s0 = LimitedTransformStream k opts in
         readable s0 = Readable \<and> size_lts s0 = k \<and>
         transform c s0 =
           (if error_option opts
            then (Some (RangeError (limit_message k)), s0)
            else (None, s0\<lparr> readable := Closed \<rparr>)) \<and>
         enqueued (pipeThrough (c # rest) s0) = [] \<and>
         readable (pipeThrough (c # rest) s0) =
           (if error_option opts then Errored (RangeError (limit_message k)) else Closed)"
proof -
  let ?s0 = "LimitedTransformStream k opts :: 'a limited_transform_stream"
  have o: "size_lts ?s0 < read ?s0 + 1" using assms by simp
  have t: "transform c ?s0 =
           (if error_option opts then (Some (RangeError (limit_message k)), ?s0)
            else (None, ?s0\<lparr> readable := Closed \<rparr>))"
    using o by (simp add: transform_def)
  have w: "write_chunk c ?s0 = ?s0\<lparr> readable := over_state ?s0 \<rparr>"
    using o by (simp add: write_chunk_over over_state_def)
  have "readable (?s0\<lparr> readable := over_state ?s0 \<rparr>) \<noteq> Readable" by simp
  then have "write_all (c # rest) ?s0 = ?s0\<lparr> readable := over_state ?s0 \<rparr>"
    using w by (simp add: write_all_not_Readable)
  then have "pipeThrough (c # rest) ?s0 = ?s0\<lparr> readable := over_state ?s0 \<rparr>"
    by (simp add: pipeThrough_def close_writer_def)
  then show ?thesis using t by (simp add: Let_def)
qed

theorem nonpositive_size_witness:
  "enqueued (pipeThrough [''1234'', ''5678''] (LimitedTransformStream 0 None)) = [] \<and>
   readable (pipeThrough [''1234'', ''5678''] (LimitedTransformStream 0 None)) = Closed \<and>
   readable (pipeThrough [''1234'', ''5678''] (LimitedTransformStream (- 3) (Some \<lparr> error = Some True \<rparr>))) =
     Errored (RangeError (''Exceeded chunk limit of '' @ [CHR 0x27] @ ''-3'' @ [CHR 0x27]))"
  using nonpositive_size [of 0 None "''1234''" "[''5678'']"]
        nonpositive_size [of "- 3" "Some \<lparr> error = Some True \<rparr>" "''1234''" "[''5678'']"]
  by (simp add: error_option_def truthy_def limit_message_def number_string_def digit_def Let_def)


section \<open>The merger\<close>

lemma read_reader_fields [simp]:
  "fst (read_reader i st) = fst (reader_read (readers st ! i))"
  "readers (snd (read_reader i st)) = (readers st)[i := snd (reader_read (readers st ! i))]"
  "delivered (snd (read_reader i st)) = delivered st"
  "queue (snd (read_reader i st)) = queue st"
  "state (snd (read_reader i st)) = state st"
  "now (snd (read_reader i st)) = now st + read_latency (readers st ! i)"
  "trace (snd (read_reader i st)) =
     trace st @ [ReadEv i (now st) (now st + read_latency (readers st ! i))]"
  by (simp_all add: read_reader_def Let_def)

lemma cancel_readers_fields [simp]:
  "readers (snd (cancel_readers x st)) = map reader_cancel (readers st)"
  "delivered (snd (cancel_readers x st)) = delivered st"
  "queue (snd (cancel_readers x st)) = queue st"
  "state (snd (cancel_readers x st)) = state st"
  "trace (snd (cancel_readers x st)) =
     trace st @ map (\<lambda>(i, r). CancelEv i x (now st) (now st + cancel_latency r))
                    (enumerate 0 (readers st))"
  by (simp_all add: cancel_readers_def Let_def)

lemma consume_fields [simp]:
  "readers (consume st) = readers st"
  "state (consume st) = state st"
  "now (consume st) = now st"
  "trace (consume st) = trace st"
  "queue (consume st) = []"
  by (simp_all add: consume_def split: stream_state.splits)

lemma consume_delivered:
  "delivered (consume st) =
     (case state st of Errored e \<Rightarrow> delivered st | _ \<Rightarrow> delivered st @ queue st)"
  by (simp add: consume_def split: stream_state.splits)

lemma consume_empty: "queue st = [] \<Longrightarrow> consume st = st"
  by (simp add: consume_def split: stream_state.splits)

lemma pull_from_end: "length (readers st) \<le> i \<Longrightarrow> pull_from i st = (None, st)"
  by (simp add: pull_from.simps)

lemma pull_from_value:
  "i < length (readers st) \<Longrightarrow> state st = Readable \<Longrightarrow>
   fst (reader_read (readers st ! i)) = ReadValue v \<Longrightarrow>
   pull_from i st = pull_from (Suc i) ((snd (read_reader i st))\<lparr> queue := queue st @ [v] \<rparr>)"
  by (subst pull_from.simps)
     (simp add: split_beta controller_enqueue_def split: read_result.splits prod.splits)

lemma pull_from_value_unreadable:
  "i < length (readers st) \<Longrightarrow> state st \<noteq> Readable \<Longrightarrow>
   fst (reader_read (readers st ! i)) = ReadValue v \<Longrightarrow>
   pull_from i st = (Some JsTypeError, snd (read_reader i st))"
  by (subst pull_from.simps)
     (simp add: split_beta controller_enqueue_def split: read_result.splits prod.splits)

lemma pull_from_done:
  "i < length (readers st) \<Longrightarrow> fst (reader_read (readers st ! i)) = ReadDone \<Longrightarrow>
   pull_from i st = on_done i (snd (read_reader i st))"
  by (subst pull_from.simps) (simp add: split_beta split: read_result.splits prod.splits)

lemma pull_from_rejected:
  "i < length (readers st) \<Longrightarrow> fst (reader_read (readers st ! i)) = ReadRejected e \<Longrightarrow>
   pull_from i st = (Some e, snd (read_reader i st))"
  by (subst pull_from.simps) (simp add: split_beta split: read_result.splits prod.splits)

lemma on_done_fst:
  "fst (on_done i st) =
     (case fst (cancel_readers (JsString (ended_message i)) st) of
        Some e \<Rightarrow> Some e
      | None \<Rightarrow> if state st = Readable then None else Some JsTypeError)"
  by (simp add: on_done_def close_after_def controller_close_def Let_def split: option.splits)

lemma on_done_snd:
  "snd (on_done i st) =
     (if fst (cancel_readers (JsString (ended_message i)) st) = None \<and> state st = Readable
      then (snd (cancel_readers (JsString (ended_message i)) st))\<lparr> state := Closed \<rparr>
      else snd (cancel_readers (JsString (ended_message i)) st))"
  by (simp add: on_done_def close_after_def controller_close_def Let_def split: option.splits)

lemma stream_pull_alt:
  "stream_pull st =
     (if state st = Readable then
        (case fst (pull (consume st)) of
           None \<Rightarrow> snd (pull (consume st))
         | Some e \<Rightarrow>
             if state (snd (pull (consume st))) = Readable
             then (snd (pull (consume st)))\<lparr> state := Errored e, queue := [] \<rparr>
             else snd (pull (consume st)))
      else st)"
  by (cases "pull (consume st)") (auto simp: stream_pull_def split: option.splits)

lemma drain_empty_aux:
  assumes "drain st = Some st'" shows "\<not> (readers st = [] \<and> state st = Readable)"
proof (rule drain.raw_induct [where P = "\<lambda>st st'. \<not> (readers st = [] \<and> state st = Readable)", OF _ assms])
  fix f st st'
  assume ih: "\<And>x y. f x = Some y \<Longrightarrow> \<not> (readers x = [] \<and> state x = Readable)"
    and eq: "(if state st = Readable then f (stream_pull st) else Some (consume st)) = Some st'"
  show "\<not> (readers st = [] \<and> state st = Readable)"
  proof
    assume a: "readers st = [] \<and> state st = Readable"
    then have "stream_pull st = consume st"
      by (simp add: stream_pull_alt pull_def pull_from_end)
    then have "f (consume st) = Some st'" using eq a by simp
    from ih [OF this] show False using a by simp
  qed
qed

text \<open>
  Claim C9.  With no source at all, \<^verbatim>\<open>pull\<close> runs an empty loop: it enqueues nothing and
  does not close the stream.  However often the host pulls, the stream stays as it was
  built, empty and readable, and draining it does not return.
\<close>

theorem no_sources_never_terminates:
  "let z = earlyZipReadableStreams [] in
     pull z = (None, z) \<and> (stream_pull ^^ m) z = z \<and>
     queue z = [] \<and> delivered z = [] \<and> state z = Readable \<and> drain z = None"
proof -
  let ?z = "earlyZipReadableStreams [] :: ('a, 'b) zip_stream"
  have c: "consume ?z = ?z" by (rule consume_empty) (simp add: earlyZipReadableStreams_def)
  have p: "pull ?z = (None, ?z)"
    by (simp add: pull_def pull_from_end earlyZipReadableStreams_def)
  have sp: "stream_pull ?z = ?z" by (simp add: stream_pull_alt c p)
  have it: "(stream_pull ^^ m) ?z = ?z" by (induction m) (simp_all add: sp)
  have "drain ?z = None"
    using drain_empty_aux [of ?z] by (cases "drain ?z") (auto simp: earlyZipReadableStreams_def)
  then show ?thesis using p it by (simp add: earlyZipReadableStreams_def Let_def)
qed

lemma pull_from_induct:
  assumes "\<And>i st. (\<And>v. i < length (readers st) \<Longrightarrow> state st = Readable \<Longrightarrow>
                 fst (reader_read (readers st ! i)) = ReadValue v \<Longrightarrow>
                 P (Suc i) ((snd (read_reader i st))\<lparr> queue := queue st @ [v] \<rparr>)) \<Longrightarrow> P i st"
  shows "P i st"
proof (induction i st rule: pull_from.induct)
  case (1 i st)
  show ?case
  proof (rule assms)
    fix v
    assume a: "i < length (readers st)" "state st = Readable"
      "fst (reader_read (readers st ! i)) = ReadValue v"
    let ?st = "(snd (read_reader i st))\<lparr> queue := queue st @ [v] \<rparr>"
    have e: "(None, ?st) = controller_enqueue v (snd (read_reader i st))"
      using a(2) by (simp add: controller_enqueue_def)
    have "P (i + 1) ?st"
      by (rule "1.IH" [OF a(1), of "fst (read_reader i st)" "snd (read_reader i st)" v None ?st])
         (use a e in \<open>simp_all add: prod_eq_iff\<close>)
    then show "P (Suc i) ?st" by simp
  qed
qed

lemma reader_read_live:
  "\<not> released r \<Longrightarrow> chunks r \<noteq> [] \<Longrightarrow> reader_read r = (ReadValue (hd (chunks r)), advance r)"
  by (cases "chunks r") (simp_all add: reader_read_def advance_def)

lemma full_round:
  assumes "state st = Readable"
    and "\<forall>j. i \<le> j \<and> j < length (readers st) \<longrightarrow>
             \<not> released (readers st ! j) \<and> chunks (readers st ! j) \<noteq> []"
  shows "fst (pull_from i st) = None \<and>
         readers (snd (pull_from i st)) = take i (readers st) @ map advance (drop i (readers st)) \<and>
         queue (snd (pull_from i st)) = queue st @ map (\<lambda>r. hd (chunks r)) (drop i (readers st)) \<and>
         delivered (snd (pull_from i st)) = delivered st \<and>
         state (snd (pull_from i st)) = Readable"
  using assms
proof (induction i st rule: pull_from_induct)
  case (1 i st)
  show ?case
  proof (cases "i < length (readers st)")
    case False
    then show ?thesis using "1.prems"(1) by (simp add: pull_from_end)
  next
    case True
    let ?r = "readers st ! i"
    have rd: "reader_read ?r = (ReadValue (hd (chunks ?r)), advance ?r)"
      using "1.prems"(2) True by (simp add: reader_read_live)
    let ?st = "(snd (read_reader i st))\<lparr> queue := queue st @ [hd (chunks ?r)] \<rparr>"
    have rs: "readers ?st = (readers st)[i := advance ?r]" using rd by simp
    have pf: "pull_from i st = pull_from (Suc i) ?st"
      using True "1.prems"(1) rd by (simp add: pull_from_value)
    have r': "state ?st = Readable" using "1.prems"(1) by simp
    have "\<forall>j. Suc i \<le> j \<and> j < length (readers ?st) \<longrightarrow>
             \<not> released (readers ?st ! j) \<and> chunks (readers ?st ! j) \<noteq> []"
      using "1.prems"(2) by (simp add: rs)
    from "1.IH" [OF True "1.prems"(1) _ r' this] rd
    have ih: "fst (pull_from (Suc i) ?st) = None"
      "readers (snd (pull_from (Suc i) ?st)) = take (Suc i) (readers ?st) @ map advance (drop (Suc i) (readers ?st))"
      "queue (snd (pull_from (Suc i) ?st)) = queue ?st @ map (\<lambda>r. hd (chunks r)) (drop (Suc i) (readers ?st))"
      "delivered (snd (pull_from (Suc i) ?st)) = delivered ?st"
      "state (snd (pull_from (Suc i) ?st)) = Readable"
      by simp_all
    have d: "drop i (readers st) = ?r # drop (Suc i) (readers st)"
      using True by (simp add: Cons_nth_drop_Suc)
    have t: "take (Suc i) ((readers st)[i := advance ?r]) = take i (readers st) @ [advance ?r]"
      using True by (simp add: take_Suc_conv_app_nth)
    show ?thesis unfolding pf ih rs t using d by simp
  qed
qed

lemma length_round_robin: "length (round_robin k xss) = k * length xss"
  by (induction k arbitrary: xss) simp_all

lemma nth_round_robin:
  assumes "\<forall>xs \<in> set xss. length xs = k" and "j < k * length xss"
  shows "round_robin k xss ! j = xss ! (j mod length xss) ! (j div length xss)"
  using assms
proof (induction k arbitrary: xss j)
  case 0
  then show ?case by simp
next
  case (Suc k)
  let ?n = "length xss"
  have n: "0 < ?n" using Suc.prems(2) by (cases xss) auto
  show ?case
  proof (cases "j < ?n")
    case True
    then have "xss ! j \<in> set xss" by simp
    then have "xss ! j \<noteq> []" using Suc.prems(1) by fastforce
    then show ?thesis using True by (simp add: nth_append hd_conv_nth)
  next
    case False
    define j' where "j' = j - ?n"
    have j: "j = j' + ?n" using False by (simp add: j'_def)
    have lt: "j' < k * length (map tl xss)" using Suc.prems(2) j by simp
    have len: "\<forall>xs \<in> set (map tl xss). length xs = k" using Suc.prems(1) by auto
    have m: "j' mod ?n < ?n" using n by simp
    then have mem: "xss ! (j' mod ?n) \<in> set xss" by simp
    have d: "j' div ?n < k" using lt n by (simp add: less_mult_imp_div_less)
    have "round_robin (Suc k) xss ! j = round_robin k (map tl xss) ! j'"
      using False by (simp add: nth_append j'_def)
    also have "\<dots> = map tl xss ! (j' mod ?n) ! (j' div ?n)"
      using Suc.IH [OF len lt] by simp
    also have "\<dots> = tl (xss ! (j' mod ?n)) ! (j' div ?n)" using m by simp
    also have "\<dots> = xss ! (j' mod ?n) ! Suc (j' div ?n)"
      using mem d Suc.prems(1) by (simp add: nth_tl)
    finally have r: "round_robin (Suc k) xss ! j = xss ! (j' mod ?n) ! Suc (j' div ?n)" .
    have "(j' + ?n) div ?n = j' div ?n + 1"
      using n by (subst div_add_self2) auto
    then have "j mod ?n = j' mod ?n" "j div ?n = Suc (j' div ?n)"
      by (simp_all add: j)
    then show ?thesis using r by simp
  qed
qed

lemma first_not_value:
  assumes "readers st \<noteq> []" and "state st = Readable"
    and "\<forall>v. fst (reader_read (readers st ! 0)) \<noteq> ReadValue v"
  shows "delivered (stream_pull st) = delivered st @ queue st \<and> queue (stream_pull st) = [] \<and>
         state (stream_pull st) \<noteq> Readable"
proof (cases "fst (reader_read (readers st ! 0))")
  case (ReadValue v)
  then show ?thesis using assms(3) by simp
next
  case ReadDone
  then have "pull (consume st) = on_done 0 (snd (read_reader 0 (consume st)))"
    using assms(1) by (simp add: pull_def pull_from_done)
  then show ?thesis using assms(2)
    by (simp add: stream_pull_alt on_done_fst on_done_snd consume_delivered split: option.splits)
next
  case (ReadRejected e)
  then have "pull (consume st) = (Some e, snd (read_reader 0 (consume st)))"
    using assms(1) by (simp add: pull_def pull_from_rejected)
  then show ?thesis using assms(2) by (simp add: stream_pull_alt consume_delivered)
qed

lemma drain_equal_length:
  assumes "state st = Readable" and "readers st \<noteq> []"
    and "\<forall>r \<in> set (readers st). \<not> released r \<and> length (chunks r) = k"
  shows "\<exists>st'. drain st = Some st' \<and> state st' \<noteq> Readable \<and> queue st' = [] \<and>
               delivered st' = delivered st @ queue st @ round_robin k (map chunks (readers st))"
  using assms
proof (induction k arbitrary: st)
  case 0
  have "readers st ! 0 \<in> set (readers st)" using "0.prems"(2) by simp
  then have "\<not> released (readers st ! 0) \<and> chunks (readers st ! 0) = []"
    using "0.prems"(3) by fastforce
  then have "\<forall>v. fst (reader_read (readers st ! 0)) \<noteq> ReadValue v"
    by (simp add: reader_read_def split: ending.splits)
  from first_not_value [OF "0.prems"(2,1) this]
  have d: "delivered (stream_pull st) = delivered st @ queue st"
    and q: "queue (stream_pull st) = []" and t: "state (stream_pull st) \<noteq> Readable"
    by simp_all
  have c: "consume (stream_pull st) = stream_pull st" using q by (rule consume_empty)
  have "drain st = drain (stream_pull st)" using "0.prems"(1) by (subst drain.simps) simp
  also have "\<dots> = Some (stream_pull st)" using t c by (subst drain.simps) simp
  finally show ?case using d q t by simp
next
  case (Suc k)
  let ?c = "consume st"
  have cr: "state ?c = Readable" using Suc.prems(1) by simp
  have live: "\<forall>j. 0 \<le> j \<and> j < length (readers ?c) \<longrightarrow>
                \<not> released (readers ?c ! j) \<and> chunks (readers ?c ! j) \<noteq> []"
  proof (intro allI impI)
    fix j assume "0 \<le> j \<and> j < length (readers ?c)"
    then have "readers st ! j \<in> set (readers st)" by simp
    then have "\<not> released (readers st ! j) \<and> length (chunks (readers st ! j)) = Suc k"
      using Suc.prems(3) by blast
    then show "\<not> released (readers ?c ! j) \<and> chunks (readers ?c ! j) \<noteq> []" by auto
  qed
  note fr = full_round [OF cr live]
  let ?st = "snd (pull_from 0 ?c)"
  have sp: "stream_pull st = ?st"
    using fr Suc.prems(1) by (simp add: stream_pull_alt pull_def)
  have rs: "readers ?st = map advance (readers st)" using fr by simp
  have qs: "queue ?st = map (\<lambda>r. hd (chunks r)) (readers st)" using fr by simp
  have ds: "delivered ?st = delivered st @ queue st"
    using fr Suc.prems(1) by (simp add: consume_delivered)
  have "\<exists>st'. drain ?st = Some st' \<and> state st' \<noteq> Readable \<and> queue st' = [] \<and>
               delivered st' = delivered ?st @ queue ?st @ round_robin k (map chunks (readers ?st))"
  proof (rule Suc.IH)
    show "state ?st = Readable" using fr by simp
    show "readers ?st \<noteq> []" using Suc.prems(2) by (simp add: rs)
    show "\<forall>r \<in> set (readers ?st). \<not> released r \<and> length (chunks r) = k"
      using Suc.prems(3) by (auto simp: rs advance_def)
  qed
  then obtain st' where st': "drain ?st = Some st'" "state st' \<noteq> Readable" "queue st' = []"
    "delivered st' = delivered ?st @ queue ?st @ round_robin k (map chunks (readers ?st))"
    by blast
  have "drain st = drain ?st" using Suc.prems(1) sp by (subst drain.simps) simp
  moreover have "map chunks (map advance (readers st)) = map tl (map chunks (readers st))"
    by (simp add: advance_def)
  moreover have "map (\<lambda>r. hd (chunks r)) (readers st) = map hd (map chunks (readers st))"
    by simp
  ultimately show ?case using st' by (simp add: rs qs ds del: map_map)
qed

text \<open>
  Claim C1.  For \<open>n \<ge> 1\<close> sources that all hold \<open>k\<close> chunks, draining the merged stream
  returns, and what the consumer has read are exactly \<open>k * n\<close> items in round-robin
  order: item \<open>j\<close> of the output is item \<open>j div n\<close> of source \<open>j mod n\<close>.
\<close>

theorem equal_length_round_robin:
  assumes "streams \<noteq> []" and "\<forall>r \<in> set streams. \<not> released r \<and> length (chunks r) = k"
  shows "\<exists>st. drain (earlyZipReadableStreams streams) = Some st \<and>
              state st \<noteq> Readable \<and> queue st = [] \<and>
              length (delivered st) = k * length streams \<and>
              (\<forall>j < k * length streams.
                 delivered st ! j = chunks (streams ! (j mod length streams)) ! (j div length streams))"
proof -
  let ?z = "earlyZipReadableStreams streams"
  have "\<exists>st'. drain ?z = Some st' \<and> state st' \<noteq> Readable \<and> queue st' = [] \<and>
               delivered st' = delivered ?z @ queue ?z @ round_robin k (map chunks (readers ?z))"
    by (rule drain_equal_length) (use assms in \<open>simp_all add: earlyZipReadableStreams_def\<close>)
  then obtain st where st: "drain ?z = Some st" "state st \<noteq> Readable" "queue st = []"
    "delivered st = round_robin k (map chunks streams)"
    by (auto simp: earlyZipReadableStreams_def)
  have "delivered st ! j = chunks (streams ! (j mod length streams)) ! (j div length streams)"
    if "j < k * length streams" for j
  proof -
    have "0 < length streams" using assms(1) by simp
    then have "j mod length streams < length streams" by simp
    moreover have "round_robin k (map chunks streams) ! j =
          map chunks streams ! (j mod length (map chunks streams)) ! (j div length (map chunks streams))"
      by (rule nth_round_robin) (use assms that in auto)
    ultimately show ?thesis by (simp add: st(4))
  qed
  then show ?thesis using st by (simp add: length_round_robin)
qed

text \<open>C1 on the documented example: two sources of three chunks each.\<close>

theorem equal_length_round_robin_witness:
  "\<exists>st. drain (earlyZipReadableStreams
             [\<lparr> chunks = [''1'', ''2'', ''3''], ending = EndOfStream, released = False,
                read_latency = 1, cancel_latency = 1, cancel_failure = None :: unit js_any option \<rparr>,
              \<lparr> chunks = [''a'', ''b'', ''c''], ending = EndOfStream, released = False,
                read_latency = 2, cancel_latency = 3, cancel_failure = None \<rparr>]) = Some st \<and>
        delivered st = [''1'', ''a'', ''2'', ''b'', ''3'', ''c'']"
  using equal_length_round_robin [of
           "[\<lparr> chunks = [''1'', ''2'', ''3''], ending = EndOfStream, released = False,
                read_latency = 1, cancel_latency = 1, cancel_failure = None :: unit js_any option \<rparr>,
              \<lparr> chunks = [''a'', ''b'', ''c''], ending = EndOfStream, released = False,
                read_latency = 2, cancel_latency = 3, cancel_failure = None \<rparr>]" 3]
  by (simp add: drain.simps stream_pull_def pull_def earlyZipReadableStreams_def read_reader_def
        reader_read_def cancel_readers_def Promise_all_def reader_cancel_def pull_from.simps
        consume_def controller_enqueue_def controller_close_def on_done_def close_after_def)

lemma first_rejection_None: "first_rejection ps = None \<longleftrightarrow> (\<forall>p \<in> set ps. snd p = None)"
  by (induction ps rule: first_rejection.induct) (auto split: option.splits)

lemma first_rejection_Some:
  "first_rejection ps = Some (t, e) \<Longrightarrow>
     (t, Some e) \<in> set ps \<and> (\<forall>p \<in> set ps. snd p \<noteq> None \<longrightarrow> t \<le> fst p)"
proof (induction ps arbitrary: t e rule: first_rejection.induct)
  case 1
  then show ?case by simp
next
  case (2 t' ps)
  then show ?case by auto
next
  case (3 t' e' ps)
  show ?case
  proof (cases "first_rejection ps")
    case None
    then have "\<forall>p \<in> set ps. snd p = None" by (simp add: first_rejection_None)
    then show ?thesis using "3.prems" None by auto
  next
    case (Some q)
    obtain t2 e2 where q: "q = (t2, e2)" by (cases q)
    have ih: "(t2, Some e2) \<in> set ps \<and> (\<forall>p \<in> set ps. snd p \<noteq> None \<longrightarrow> t2 \<le> fst p)"
      using "3.IH" Some q by simp
    show ?thesis
    proof (cases "t2 < t'")
      case True
      then have "t = t2" "e = e2" using "3.prems" Some q by simp_all
      then show ?thesis using ih True by auto
    next
      case False
      then have "t = t'" "e = e'" using "3.prems" Some q by simp_all
      then show ?thesis using ih False by fastforce
    qed
  qed
qed

lemma fold_max_ge: "(t::nat) \<le> fold max xs t \<and> (\<forall>x \<in> set xs. x \<le> fold max xs t)"
proof (induction xs arbitrary: t)
  case Nil
  then show ?case by simp
next
  case (Cons x xs)
  have "max x t \<le> fold max xs (max x t)" "\<forall>y \<in> set xs. y \<le> fold max xs (max x t)"
    using Cons.IH [of "max x t"] by simp_all
  then show ?case by auto
qed

lemma map_enumerate:
  "map (\<lambda>(i, r). f i r) (enumerate 0 xs) = map (\<lambda>j. f j (xs ! j)) [0..<length xs]"
  by (rule nth_equalityI) (simp_all add: nth_enumerate_eq)

lemma cancel_readers_trace:
  "trace (snd (cancel_readers x st)) =
     trace st @ map (\<lambda>j. CancelEv j x (now st) (now st + cancel_latency (readers st ! j)))
                    [0..<length (readers st)]"
  by (simp add: map_enumerate)

lemma cancel_readers_ok:
  "fst (cancel_readers x st) = None \<longleftrightarrow> (\<forall>r \<in> set (readers st). cancel_failure r = None)"
proof -
  let ?ps = "map (\<lambda>r. (now st + cancel_latency r, cancel_failure r)) (readers st)"
  have "fst (cancel_readers x st) = None \<longleftrightarrow> first_rejection ?ps = None"
    by (simp add: cancel_readers_def Let_def Promise_all_def split: option.splits)
  also have "\<dots> \<longleftrightarrow> (\<forall>r \<in> set (readers st). cancel_failure r = None)"
    by (simp add: first_rejection_None)
  finally show ?thesis .
qed

lemma cancel_readers_waits:
  assumes "fst (cancel_readers x st) = None" and "r \<in> set (readers st)"
  shows "now st + cancel_latency r \<le> now (snd (cancel_readers x st))"
proof -
  let ?ps = "map (\<lambda>r. (now st + cancel_latency r, cancel_failure r)) (readers st)"
  have "first_rejection ?ps = None"
    using assms(1) by (simp add: cancel_readers_ok first_rejection_None)
  then have "now (snd (cancel_readers x st)) = fold max (map fst ?ps) (now st)"
    by (simp add: cancel_readers_def Let_def Promise_all_def)
  moreover have "now st + cancel_latency r \<in> set (map fst ?ps)" using assms(2) by force
  ultimately show ?thesis using fold_max_ge [of "now st" "map fst ?ps"] by metis
qed

lemma cancel_readers_fails:
  assumes "fst (cancel_readers x st) = Some e"
  shows "\<exists>r \<in> set (readers st). cancel_failure r = Some e \<and>
           now (snd (cancel_readers x st)) = now st + cancel_latency r \<and>
           (\<forall>r' \<in> set (readers st). cancel_failure r' \<noteq> None \<longrightarrow>
              cancel_latency r \<le> cancel_latency r')"
proof -
  let ?ps = "map (\<lambda>r. (now st + cancel_latency r, cancel_failure r)) (readers st)"
  obtain t where fr: "first_rejection ?ps = Some (t, e)"
    using assms by (auto simp: cancel_readers_def Let_def Promise_all_def split: option.splits)
  then have t: "now (snd (cancel_readers x st)) = t"
    by (simp add: cancel_readers_def Let_def Promise_all_def)
  from first_rejection_Some [OF fr]
  have mem: "(t, Some e) \<in> set ?ps" and least: "\<forall>p \<in> set ?ps. snd p \<noteq> None \<longrightarrow> t \<le> fst p"
    by simp_all
  from mem obtain r where r: "r \<in> set (readers st)" "t = now st + cancel_latency r"
    "cancel_failure r = Some e" by auto
  have "cancel_latency r \<le> cancel_latency r'"
    if "r' \<in> set (readers st)" "cancel_failure r' \<noteq> None" for r'
  proof -
    have "(now st + cancel_latency r', cancel_failure r') \<in> set ?ps" using that(1) by force
    then have "t \<le> now st + cancel_latency r'" using least that(2) by fastforce
    then show ?thesis using r(2) by simp
  qed
  then show ?thesis using r t by blast
qed



lemma reader_read_value:
  "fst (reader_read r) = ReadValue v \<Longrightarrow> \<not> released r \<and> chunks r \<noteq> [] \<and> v = hd (chunks r)"
  by (cases "chunks r") (auto simp: reader_read_def split: if_splits ending.splits)

lemma reader_read_done: "fst (reader_read r) = ReadDone \<Longrightarrow> snd (reader_read r) = r"
  by (cases "chunks r") (auto simp: reader_read_def split: if_splits ending.splits)

lemma cancels_append [simp]: "cancels (xs @ ys) = cancels xs @ cancels ys"
  by (simp add: cancels_def)

lemma reads_append [simp]: "reads (xs @ ys) = reads xs @ reads ys"
  by (simp add: reads_def)

lemma cancels_ReadEv [simp]: "cancels [ReadEv i a b] = []"
  by (simp add: cancels_def)

lemma cancels_CancelEvs [simp]: "cancels (map (\<lambda>j. CancelEv j x (a j) (b j)) js) = map (\<lambda>j. CancelEv j x (a j) (b j)) js"
  by (induction js) (simp_all add: cancels_def)

lemma reads_CancelEvs [simp]: "reads (map (\<lambda>j. CancelEv j x (a j) (b j)) js) = []"
  by (induction js) (simp_all add: reads_def)

lemma advance_fields [simp]:
  "cancel_latency (advance r) = cancel_latency r"
  "cancel_failure (advance r) = cancel_failure r"
  "read_latency (advance r) = read_latency r"
  by (simp_all add: advance_def)

lemma values_prefix:
  assumes "state st = Readable" and "i \<le> d" and "d \<le> length (readers st)"
    and "\<forall>j. i \<le> j \<and> j < d \<longrightarrow> \<not> released (readers st ! j) \<and> chunks (readers st ! j) \<noteq> []"
  shows "\<exists>st1. pull_from i st = pull_from d st1 \<and>
           length (readers st1) = length (readers st) \<and>
           (\<forall>j. d \<le> j \<longrightarrow> readers st1 ! j = readers st ! j) \<and>
           map cancel_latency (readers st1) = map cancel_latency (readers st) \<and>
           map cancel_failure (readers st1) = map cancel_failure (readers st) \<and>
           queue st1 = queue st @ map (\<lambda>j. hd (chunks (readers st ! j))) [i..<d] \<and>
           delivered st1 = delivered st \<and>
           state st1 = Readable \<and>
           cancels (trace st1) = cancels (trace st) \<and>
           now st \<le> now st1"
  using assms
proof (induction i st rule: pull_from_induct)
  case (1 i st)
  show ?case
  proof (cases "i = d")
    case True
    then show ?thesis using "1.prems"(1) by auto
  next
    case False
    then have lt: "i < d" using "1.prems"(2) by simp
    then have il: "i < length (readers st)" using "1.prems"(3) by simp
    let ?r = "readers st ! i"
    have rd: "reader_read ?r = (ReadValue (hd (chunks ?r)), advance ?r)"
      using "1.prems"(4) lt by (simp add: reader_read_live)
    let ?st = "(snd (read_reader i st))\<lparr> queue := queue st @ [hd (chunks ?r)] \<rparr>"
    have rs: "readers ?st = (readers st)[i := advance ?r]" using rd by simp
    have pf: "pull_from i st = pull_from (Suc i) ?st"
      using il "1.prems"(1) rd by (simp add: pull_from_value)
    have "\<exists>st1. pull_from (Suc i) ?st = pull_from d st1 \<and>
           length (readers st1) = length (readers ?st) \<and>
           (\<forall>j. d \<le> j \<longrightarrow> readers st1 ! j = readers ?st ! j) \<and>
           map cancel_latency (readers st1) = map cancel_latency (readers ?st) \<and>
           map cancel_failure (readers st1) = map cancel_failure (readers ?st) \<and>
           queue st1 = queue ?st @ map (\<lambda>j. hd (chunks (readers ?st ! j))) [Suc i..<d] \<and>
           delivered st1 = delivered ?st \<and>
           state st1 = Readable \<and>
           cancels (trace st1) = cancels (trace ?st) \<and>
           now ?st \<le> now st1"
    proof (rule "1.IH" [OF il "1.prems"(1)])
      show "fst (reader_read ?r) = ReadValue (hd (chunks ?r))" using rd by simp
      show "state ?st = Readable" using "1.prems"(1) by simp
      show "Suc i \<le> d" using lt by simp
      show "d \<le> length (readers ?st)" using "1.prems"(3) by (simp add: rs)
      show "\<forall>j. Suc i \<le> j \<and> j < d \<longrightarrow>
              \<not> released (readers ?st ! j) \<and> chunks (readers ?st ! j) \<noteq> []"
        using "1.prems"(4) by (simp add: rs)
    qed
    then obtain st1 where st1: "pull_from (Suc i) ?st = pull_from d st1"
      "length (readers st1) = length (readers ?st)"
      "\<forall>j. d \<le> j \<longrightarrow> readers st1 ! j = readers ?st ! j"
      "map cancel_latency (readers st1) = map cancel_latency (readers ?st)"
      "map cancel_failure (readers st1) = map cancel_failure (readers ?st)"
      "queue st1 = queue ?st @ map (\<lambda>j. hd (chunks (readers ?st ! j))) [Suc i..<d]"
      "delivered st1 = delivered ?st"
      "state st1 = Readable"
      "cancels (trace st1) = cancels (trace ?st)"
      "now ?st \<le> now st1" by blast
    have m1: "map cancel_latency (readers ?st) = map cancel_latency (readers st)"
      using il by (simp add: rs map_update list_update_same_conv)
    have m2: "map cancel_failure (readers ?st) = map cancel_failure (readers st)"
      using il by (simp add: rs map_update list_update_same_conv)
    have q: "map (\<lambda>j. hd (chunks (readers ?st ! j))) [Suc i..<d] =
             map (\<lambda>j. hd (chunks (readers st ! j))) [Suc i..<d]"
      by (rule map_cong) (simp_all add: rs)
    have u: "[i..<d] = i # [Suc i..<d]" using lt by (simp add: upt_conv_Cons)
    show ?thesis
    proof (intro exI [of _ st1] conjI)
      show "pull_from i st = pull_from d st1" using pf st1(1) by simp
      show "length (readers st1) = length (readers st)" using st1(2) by (simp add: rs)
      show "\<forall>j. d \<le> j \<longrightarrow> readers st1 ! j = readers st ! j"
        using st1(3) lt by (simp add: rs)
      show "map cancel_latency (readers st1) = map cancel_latency (readers st)"
        using st1(4) m1 by simp
      show "map cancel_failure (readers st1) = map cancel_failure (readers st)"
        using st1(5) m2 by simp
      show "queue st1 = queue st @ map (\<lambda>j. hd (chunks (readers st ! j))) [i..<d]"
        using st1(6) by (simp add: q u)
      show "delivered st1 = delivered st" using st1(7) by simp
      show "state st1 = Readable" by (rule st1(8))
      show "cancels (trace st1) = cancels (trace st)" using st1(9) by simp
      show "now st \<le> now st1" using st1(10) by simp
    qed
  qed
qed

lemma same_profile:
  assumes "map cancel_latency xs = map cancel_latency ys"
    and "map cancel_failure xs = map cancel_failure ys" and "r \<in> set xs"
  shows "\<exists>r' \<in> set ys. cancel_latency r' = cancel_latency r \<and> cancel_failure r' = cancel_failure r"
proof -
  have len: "length xs = length ys" using assms(1) by (rule map_eq_imp_length_eq)
  obtain j where j: "j < length xs" "xs ! j = r" using assms(3) by (auto simp: in_set_conv_nth)
  have "cancel_latency (ys ! j) = map cancel_latency ys ! j" using j len by simp
  also have "\<dots> = cancel_latency r" using j by (simp flip: assms(1))
  finally have l: "cancel_latency (ys ! j) = cancel_latency r" .
  have "cancel_failure (ys ! j) = map cancel_failure ys ! j" using j len by simp
  also have "\<dots> = cancel_failure r" using j by (simp flip: assms(2))
  finally have f: "cancel_failure (ys ! j) = cancel_failure r" .
  have "ys ! j \<in> set ys" using j len by simp
  then show ?thesis using l f by blast
qed

lemma exhausted_stream_pull:
  assumes "state st = Readable" and "d < length (readers st)"
    and "\<forall>j < d. \<not> released (readers st ! j) \<and> chunks (readers st ! j) \<noteq> []"
    and "fst (reader_read (readers st ! d)) = ReadDone"
  shows "\<exists>t. now st \<le> t \<and>
           cancels (trace (stream_pull st)) =
             cancels (trace st) @
             map (\<lambda>j. CancelEv j (JsString (ended_message d)) t (t + cancel_latency (readers st ! j)))
                 [0..<length (readers st)] \<and>
           delivered (stream_pull st) = delivered st @ queue st \<and>
           (\<forall>r \<in> set (readers (stream_pull st)). released r) \<and>
           ((\<forall>r \<in> set (readers st). cancel_failure r = None) \<longrightarrow>
              state (stream_pull st) = Closed \<and>
              queue (stream_pull st) = map (\<lambda>j. hd (chunks (readers st ! j))) [0..<d] \<and>
              (\<forall>r \<in> set (readers st). t + cancel_latency r \<le> now (stream_pull st))) \<and>
           ((\<exists>r \<in> set (readers st). cancel_failure r \<noteq> None) \<longrightarrow>
              (\<exists>r \<in> set (readers st). \<exists>e. cancel_failure r = Some e \<and>
                 state (stream_pull st) = Errored e \<and>
                 queue (stream_pull st) = [] \<and>
                 now (stream_pull st) = t + cancel_latency r \<and>
                 (\<forall>r' \<in> set (readers st). cancel_failure r' \<noteq> None \<longrightarrow>
                    cancel_latency r \<le> cancel_latency r')))"
proof -
  let ?n = "length (readers st)"
  let ?x = "JsString (ended_message d)"
  let ?st0 = "consume st"
  have s0: "state ?st0 = Readable" "readers ?st0 = readers st" "queue ?st0 = []"
    "delivered ?st0 = delivered st @ queue st" "trace ?st0 = trace st" "now ?st0 = now st"
    using assms(1) by (simp_all add: consume_delivered)
  have "\<exists>st1. pull_from 0 ?st0 = pull_from d st1 \<and>
           length (readers st1) = length (readers ?st0) \<and>
           (\<forall>j. d \<le> j \<longrightarrow> readers st1 ! j = readers ?st0 ! j) \<and>
           map cancel_latency (readers st1) = map cancel_latency (readers ?st0) \<and>
           map cancel_failure (readers st1) = map cancel_failure (readers ?st0) \<and>
           queue st1 = queue ?st0 @ map (\<lambda>j. hd (chunks (readers ?st0 ! j))) [0..<d] \<and>
           delivered st1 = delivered ?st0 \<and>
           state st1 = Readable \<and>
           cancels (trace st1) = cancels (trace ?st0) \<and>
           now ?st0 \<le> now st1"
    by (rule values_prefix) (use assms s0 in simp_all)
  then obtain st1 where st1: "pull_from 0 ?st0 = pull_from d st1"
    "length (readers st1) = ?n"
    "\<forall>j. d \<le> j \<longrightarrow> readers st1 ! j = readers st ! j"
    "map cancel_latency (readers st1) = map cancel_latency (readers st)"
    "map cancel_failure (readers st1) = map cancel_failure (readers st)"
    "queue st1 = map (\<lambda>j. hd (chunks (readers st ! j))) [0..<d]"
    "delivered st1 = delivered st @ queue st"
    "state st1 = Readable"
    "cancels (trace st1) = cancels (trace st)"
    "now st \<le> now st1" unfolding s0 by (elim exE conjE) simp
  have dn: "fst (reader_read (readers st1 ! d)) = ReadDone" using st1(3) assms(4) by simp
  define st2 where "st2 = snd (read_reader d st1)"
  have rs2: "readers st2 = readers st1"
    using dn by (simp add: st2_def reader_read_done)
  have f2: "queue st2 = queue st1" "state st2 = Readable" "delivered st2 = delivered st1"
    "cancels (trace st2) = cancels (trace st1)" "now st1 \<le> now st2"
    using st1(8) by (simp_all add: st2_def)
  define c where "c = cancel_readers ?x st2"
  have pl: "pull ?st0 = on_done d st2"
    using st1(1,2) assms(2) dn by (simp add: pull_def pull_from_done st2_def)
  have fp: "fst (pull ?st0) = fst c"
    using f2(2) by (simp add: pl on_done_fst c_def split: option.splits)
  have sn: "snd (pull ?st0) = (if fst c = None then (snd c)\<lparr> state := Closed \<rparr> else snd c)"
    using f2(2) by (simp add: pl on_done_snd c_def)
  have sp: "stream_pull st = (case fst c of Some e \<Rightarrow> (snd c)\<lparr> state := Errored e, queue := [] \<rparr>
                              | None \<Rightarrow> (snd c)\<lparr> state := Closed \<rparr>)"
    using assms(1) f2(2) by (simp add: stream_pull_alt fp sn c_def split: option.splits)
  have lat: "cancel_latency (readers st2 ! j) = cancel_latency (readers st ! j)" if "j < ?n" for j
  proof -
    have "cancel_latency (readers st2 ! j) = map cancel_latency (readers st1) ! j"
      using that st1(2) by (simp add: rs2)
    then show ?thesis using that by (simp add: st1(4))
  qed
  have tr: "cancels (trace (snd c)) =
      cancels (trace st) @
      map (\<lambda>j. CancelEv j ?x (now st2) (now st2 + cancel_latency (readers st ! j))) [0..<?n]"
  proof -
    have "map (\<lambda>j. CancelEv j ?x (now st2) (now st2 + cancel_latency (readers st2 ! j))) [0..<?n] =
          map (\<lambda>j. CancelEv j ?x (now st2) (now st2 + cancel_latency (readers st ! j))) [0..<?n]"
      by (rule map_cong) (simp_all add: lat)
    then show ?thesis
      unfolding c_def cancel_readers_trace by (simp add: rs2 st1(2) f2 st1(9))
  qed
  have trs: "cancels (trace (stream_pull st)) = cancels (trace (snd c))"
    by (simp add: sp split: option.splits)
  have dl: "delivered (stream_pull st) = delivered st @ queue st"
    by (simp add: sp c_def f2 st1(7) split: option.splits)
  have rel: "\<forall>r \<in> set (readers (stream_pull st)). released r"
    by (auto simp: sp c_def reader_cancel_def split: option.splits)
  have nw: "now (stream_pull st) = now (snd c)" by (simp add: sp split: option.splits)
  have ok: "fst c = None \<longleftrightarrow> (\<forall>r \<in> set (readers st). cancel_failure r = None)"
  proof -
    have "fst c = None \<longleftrightarrow> (\<forall>r \<in> set (readers st1). cancel_failure r = None)"
      by (simp add: c_def cancel_readers_ok rs2)
    also have "\<dots> \<longleftrightarrow> (\<forall>x \<in> set (map cancel_failure (readers st1)). x = None)" by simp
    also have "\<dots> \<longleftrightarrow> (\<forall>r \<in> set (readers st). cancel_failure r = None)"
      unfolding st1(5) by simp
    finally show ?thesis .
  qed
  have p1: "state (stream_pull st) = Closed \<and>
            queue (stream_pull st) = map (\<lambda>j. hd (chunks (readers st ! j))) [0..<d] \<and>
            (\<forall>r \<in> set (readers st). now st2 + cancel_latency r \<le> now (stream_pull st))"
    if a: "\<forall>r \<in> set (readers st). cancel_failure r = None"
  proof -
    have n: "fst c = None" using a ok by simp
    have "now st2 + cancel_latency r \<le> now (snd c)" if rin: "r \<in> set (readers st)" for r
    proof -
      obtain r' where "r' \<in> set (readers st1)" "cancel_latency r' = cancel_latency r"
        using same_profile [OF st1(4) [symmetric] st1(5) [symmetric] rin] by blast
      then show ?thesis
        using cancel_readers_waits [of ?x st2 r'] n by (simp add: c_def rs2)
    qed
    moreover have "queue (stream_pull st) = map (\<lambda>j. hd (chunks (readers st ! j))) [0..<d]"
      using n by (simp add: sp c_def f2 st1(6))
    ultimately show ?thesis using n by (simp add: sp)
  qed
  have p2: "\<exists>r \<in> set (readers st). \<exists>e. cancel_failure r = Some e \<and>
                 state (stream_pull st) = Errored e \<and>
                 queue (stream_pull st) = [] \<and>
                 now (stream_pull st) = now st2 + cancel_latency r \<and>
                 (\<forall>r' \<in> set (readers st). cancel_failure r' \<noteq> None \<longrightarrow>
                    cancel_latency r \<le> cancel_latency r')"
    if a: "\<exists>r \<in> set (readers st). cancel_failure r \<noteq> None"
  proof -
    obtain e where e: "fst c = Some e" using a ok by (cases "fst c") auto
    from cancel_readers_fails [of ?x st2 e] e
    obtain r1 where r1: "r1 \<in> set (readers st1)" "cancel_failure r1 = Some e"
      "now (snd c) = now st2 + cancel_latency r1"
      "\<forall>r' \<in> set (readers st1). cancel_failure r' \<noteq> None \<longrightarrow> cancel_latency r1 \<le> cancel_latency r'"
      by (auto simp: c_def rs2)
    obtain r where r: "r \<in> set (readers st)" "cancel_latency r = cancel_latency r1"
      "cancel_failure r = cancel_failure r1"
      using same_profile [OF st1(4,5) r1(1)] by blast
    have least: "cancel_latency r \<le> cancel_latency r'"
      if rin: "r' \<in> set (readers st)" "cancel_failure r' \<noteq> None" for r'
    proof -
      obtain r'' where "r'' \<in> set (readers st1)" "cancel_latency r'' = cancel_latency r'"
        "cancel_failure r'' = cancel_failure r'"
        using same_profile [OF st1(4) [symmetric] st1(5) [symmetric] rin(1)] by blast
      then show ?thesis using r1(4) rin(2) r(2) by fastforce
    qed
    have se: "state (stream_pull st) = Errored e" "queue (stream_pull st) = []"
      using e by (simp_all add: sp)
    show ?thesis
    proof (intro bexI [of _ r] exI [of _ e] conjI ballI impI)
      show "cancel_failure r = Some e" using r(3) r1(2) by simp
      show "state (stream_pull st) = Errored e" by (rule se(1))
      show "queue (stream_pull st) = []" by (rule se(2))
      show "now (stream_pull st) = now st2 + cancel_latency r" using nw r1(3) r(2) by simp
      show "cancel_latency r \<le> cancel_latency r'"
        if "r' \<in> set (readers st)" "cancel_failure r' \<noteq> None" for r'
        using least that by simp
      show "r \<in> set (readers st)" by (rule r(1))
    qed
  qed
  have n2: "now st \<le> now st2" using st1(10) f2(5) by simp
  have c2: "cancels (trace (stream_pull st)) =
      cancels (trace st) @
      map (\<lambda>j. CancelEv j ?x (now st2) (now st2 + cancel_latency (readers st ! j))) [0..<?n]"
    using tr trs by simp
  show ?thesis
  proof (intro exI [of _ "now st2"] conjI)
    show "now st \<le> now st2" by (rule n2)
    show "cancels (trace (stream_pull st)) =
      cancels (trace st) @
      map (\<lambda>j. CancelEv j ?x (now st2) (now st2 + cancel_latency (readers st ! j))) [0..<?n]"
      by (rule c2)
    show "delivered (stream_pull st) = delivered st @ queue st" by (rule dl)
    show "\<forall>r \<in> set (readers (stream_pull st)). released r" by (rule rel)
    show "(\<forall>r \<in> set (readers st). cancel_failure r = None) \<longrightarrow>
              state (stream_pull st) = Closed \<and>
              queue (stream_pull st) = map (\<lambda>j. hd (chunks (readers st ! j))) [0..<d] \<and>
              (\<forall>r \<in> set (readers st). now st2 + cancel_latency r \<le> now (stream_pull st))"
      using p1 by (rule impI)
    show "(\<exists>r \<in> set (readers st). cancel_failure r \<noteq> None) \<longrightarrow>
              (\<exists>r \<in> set (readers st). \<exists>e. cancel_failure r = Some e \<and>
                 state (stream_pull st) = Errored e \<and>
                 queue (stream_pull st) = [] \<and>
                 now (stream_pull st) = now st2 + cancel_latency r \<and>
                 (\<forall>r' \<in> set (readers st). cancel_failure r' \<noteq> None \<longrightarrow>
                    cancel_latency r \<le> cancel_latency r'))"
      using p2 by (rule impI)
  qed
qed

lemma live_of_values:
  assumes "\<forall>j < d. \<exists>v. fst (reader_read (readers st ! j)) = ReadValue v"
  shows "\<forall>j < d. \<not> released (readers st ! j) \<and> chunks (readers st ! j) \<noteq> []"
proof (intro allI impI)
  fix j assume "j < d"
  then obtain v where "fst (reader_read (readers st ! j)) = ReadValue v" using assms by blast
  then show "\<not> released (readers st ! j) \<and> chunks (readers st ! j) \<noteq> []"
    using reader_read_value [of "readers st ! j" v] by simp
qed

text \<open>
  Claim C3 as it is stated fails where a cancellation is rejected.  In the first round
  \<open>3\<close> is read from source 0 and enqueued, then source 1 is found exhausted.  Source 0 is
  still live and its \<^verbatim>\<open>cancel\<close> rejects, so the \<^verbatim>\<open>await Promise.all(...)\<close> throws,
  \<^verbatim>\<open>controller.close()\<close> is never reached, and the host errors the merged stream and drops
  the queued \<open>3\<close>: the output is not closed cleanly, and the item read earlier in the
  round does not remain in it.
\<close>

theorem exhaustion_not_closed_counterexample:
  "(let z = earlyZipReadableStreams
             [\<lparr> chunks = [''3'', ''4''], ending = EndOfStream, released = False,
                read_latency = 1, cancel_latency = 1,
                cancel_failure = Some (JsString ''boom'' :: unit js_any) \<rparr>,
              \<lparr> chunks = [], ending = EndOfStream, released = False,
                read_latency = 1, cancel_latency = 0, cancel_failure = None \<rparr>]
    in fst (reader_read (readers z ! 0)) = ReadValue ''3'' \<and>
       fst (reader_read (readers z ! 1)) = ReadDone \<and>
       state (stream_pull z) = Errored (JsString ''boom'') \<and>
       queue (stream_pull z) = [] \<and> delivered (stream_pull z) = [])"
  by (simp add: stream_pull_def pull_def earlyZipReadableStreams_def read_reader_def
        reader_read_def cancel_readers_def Promise_all_def reader_cancel_def pull_from.simps
        consume_def controller_enqueue_def controller_close_def on_done_def close_after_def
        Let_def)

text \<open>
  Claim C3, amended.  In any round (a pull on a readable stream), when the read of source
  \<open>i\<close> signals end-of-stream after the sources before it yielded a chunk: every reader
  \<open>0..n-1\<close> is cancelled, with the reason \<^verbatim>\<open>Stream at index i ended\<close>, and what the consumer
  has read before the round is untouched.  If every cancellation succeeds, the output is
  closed cleanly and the chunks read earlier in the round remain in it, queued for the
  consumer.  If a cancellation is rejected, the output is errored with the rejection of
  one of them, and the chunks of the round, which the consumer has not read yet, are
  dropped.
\<close>

theorem exhaustion_cancels_all:
  assumes "state st = Readable" and "i < length (readers st)"
    and "\<forall>j < i. \<exists>v. fst (reader_read (readers st ! j)) = ReadValue v"
    and "fst (reader_read (readers st ! i)) = ReadDone"
  shows "(\<exists>t. cancels (trace (stream_pull st)) =
            cancels (trace st) @
            map (\<lambda>j. CancelEv j (JsString (''Stream at index '' @ decimal i @ '' ended'')) t
                        (t + cancel_latency (readers st ! j)))
                [0..<length (readers st)]) \<and>
         (\<forall>r \<in> set (readers (stream_pull st)). released r) \<and>
         delivered (stream_pull st) = delivered st @ queue st \<and>
         ((\<forall>r \<in> set (readers st). cancel_failure r = None) \<longrightarrow>
            state (stream_pull st) = Closed \<and>
            queue (stream_pull st) = map (\<lambda>j. hd (chunks (readers st ! j))) [0..<i]) \<and>
         ((\<exists>r \<in> set (readers st). cancel_failure r \<noteq> None) \<longrightarrow>
            (\<exists>r \<in> set (readers st). \<exists>e. cancel_failure r = Some e \<and>
               state (stream_pull st) = Errored e \<and> queue (stream_pull st) = []))"
proof -
  note live = live_of_values [OF assms(3)]
  from exhausted_stream_pull [OF assms(1,2) live assms(4)] show ?thesis
  proof (elim exE conjE)
    fix t
    assume t1: "cancels (trace (stream_pull st)) =
       cancels (trace st) @
       map (\<lambda>j. CancelEv j (JsString (ended_message i)) t (t + cancel_latency (readers st ! j)))
           [0..<length (readers st)]"
      and t2: "delivered (stream_pull st) = delivered st @ queue st"
      and t3: "\<forall>r \<in> set (readers (stream_pull st)). released r"
      and t4: "(\<forall>r \<in> set (readers st). cancel_failure r = None) \<longrightarrow>
         state (stream_pull st) = Closed \<and>
         queue (stream_pull st) = map (\<lambda>j. hd (chunks (readers st ! j))) [0..<i] \<and>
         (\<forall>r \<in> set (readers st). t + cancel_latency r \<le> now (stream_pull st))"
      and t5: "(\<exists>r \<in> set (readers st). cancel_failure r \<noteq> None) \<longrightarrow>
         (\<exists>r \<in> set (readers st). \<exists>e. cancel_failure r = Some e \<and>
            state (stream_pull st) = Errored e \<and>
            queue (stream_pull st) = [] \<and>
            now (stream_pull st) = t + cancel_latency r \<and>
            (\<forall>r' \<in> set (readers st). cancel_failure r' \<noteq> None \<longrightarrow>
               cancel_latency r \<le> cancel_latency r'))"
    have "cancels (trace (stream_pull st)) =
            cancels (trace st) @
            map (\<lambda>j. CancelEv j (JsString (''Stream at index '' @ decimal i @ '' ended'')) t
                        (t + cancel_latency (readers st ! j)))
                [0..<length (readers st)]"
      by (simp only: t1 ended_message_def)
    then have a: "\<exists>t. cancels (trace (stream_pull st)) =
            cancels (trace st) @
            map (\<lambda>j. CancelEv j (JsString (''Stream at index '' @ decimal i @ '' ended'')) t
                        (t + cancel_latency (readers st ! j)))
                [0..<length (readers st)]" ..
    have b: "(\<forall>r \<in> set (readers st). cancel_failure r = None) \<longrightarrow>
               state (stream_pull st) = Closed \<and>
               queue (stream_pull st) = map (\<lambda>j. hd (chunks (readers st ! j))) [0..<i]"
      using t4 by simp
    have c: "(\<exists>r \<in> set (readers st). cancel_failure r \<noteq> None) \<longrightarrow>
            (\<exists>r \<in> set (readers st). \<exists>e. cancel_failure r = Some e \<and>
               state (stream_pull st) = Errored e \<and> queue (stream_pull st) = [])"
    proof
      assume "\<exists>r \<in> set (readers st). cancel_failure r \<noteq> None"
      with t5 obtain r e where "r \<in> set (readers st)" "cancel_failure r = Some e"
        "state (stream_pull st) = Errored e" "queue (stream_pull st) = []" by blast
      then show "\<exists>r \<in> set (readers st). \<exists>e. cancel_failure r = Some e \<and>
               state (stream_pull st) = Errored e \<and> queue (stream_pull st) = []" by blast
    qed
    show ?thesis using a t3 t2 b c by (intro conjI)
  qed
qed

text \<open>
  C3 on the last round of the documented example with the shorter second source: \<open>3\<close> is
  read and kept, then source 1 is found exhausted.
\<close>

theorem exhaustion_cancels_all_witness:
  "(let z = earlyZipReadableStreams
             [\<lparr> chunks = [''3'', ''4''], ending = EndOfStream, released = False,
                read_latency = 2, cancel_latency = 1, cancel_failure = None :: unit js_any option \<rparr>,
              \<lparr> chunks = [], ending = EndOfStream, released = False,
                read_latency = 1, cancel_latency = 0, cancel_failure = None \<rparr>]
    in queue (stream_pull z) = [''3''] \<and> state (stream_pull z) = Closed \<and>
       delivered (consume (stream_pull z)) = [''3''] \<and>
       cancels (trace (stream_pull z)) =
         [CancelEv 0 (JsString ''Stream at index 1 ended'') 3 4,
          CancelEv 1 (JsString ''Stream at index 1 ended'') 3 3])"
  using exhaustion_cancels_all [of "earlyZipReadableStreams
             [\<lparr> chunks = [''3'', ''4''], ending = EndOfStream, released = False,
                read_latency = 2, cancel_latency = 1, cancel_failure = None :: unit js_any option \<rparr>,
              \<lparr> chunks = [], ending = EndOfStream, released = False,
                read_latency = 1, cancel_latency = 0, cancel_failure = None \<rparr>]" 1]
  by (simp add: stream_pull_def pull_def earlyZipReadableStreams_def read_reader_def
        reader_read_def cancel_readers_def Promise_all_def reader_cancel_def pull_from.simps
        consume_def controller_enqueue_def controller_close_def on_done_def close_after_def
        Let_def cancels_def enumerate_eq_zip upt_rec ended_message_def digit_def)

lemma stream_cancel_Readable:
  "state st = Readable \<Longrightarrow>
   stream_cancel x st = cancel_readers x (st\<lparr> state := Closed, queue := [] \<rparr>)"
  by (simp add: stream_cancel_def cancel_def)

text \<open>
  Claim C5 as it is stated fails: \<^verbatim>\<open>Promise.all\<close> rejects with the first rejection and
  does not wait for the rest.  Here the cancellation of source 0 is rejected at time 1,
  which ends the merger's own \<^verbatim>\<open>cancel\<close> at time 1, while the cancellation of source 1
  only settles at time 5.
\<close>

theorem cancel_batch_early_counterexample:
  "(let c = stream_cancel (JsString ''stop'')
              (earlyZipReadableStreams
                 [\<lparr> chunks = [''1''], ending = EndOfStream, released = False,
                    read_latency = 1, cancel_latency = 1,
                    cancel_failure = Some (JsString ''boom'' :: unit js_any) \<rparr>,
                  \<lparr> chunks = [''a''], ending = EndOfStream, released = False,
                    read_latency = 1, cancel_latency = 5, cancel_failure = None \<rparr>])
    in fst c = Some (JsString ''boom'') \<and> now (snd c) = 1 \<and>
       trace (snd c) = [CancelEv 0 (JsString ''stop'') 0 1, CancelEv 1 (JsString ''stop'') 0 5])"
  by (simp add: stream_cancel_def cancel_def earlyZipReadableStreams_def cancel_readers_def
        Promise_all_def Let_def enumerate_eq_zip upt_rec)

text \<open>
  Claim C5, amended.  Both batches (the consumer's cancel, and the one a pull issues when
  the read of source \<open>i\<close> signals end-of-stream) issue every cancellation at one moment.
  If all of them succeed, the merger goes on only after the last one has settled, and
  ends cleanly.  If any is rejected, the merger fails with the rejection that settles
  first, at the moment it settles, whether or not the others have settled: the consumer's
  cancel rejects with it, and the pull leaves the output errored with it.
\<close>

theorem cancel_batch_settles:
  assumes "state st = Readable"
  shows "(let c = stream_cancel x st in
            trace (snd c) =
              trace st @ map (\<lambda>j. CancelEv j x (now st) (now st + cancel_latency (readers st ! j)))
                             [0..<length (readers st)] \<and>
            (fst c = None \<longleftrightarrow> (\<forall>r \<in> set (readers st). cancel_failure r = None)) \<and>
            (fst c = None \<longrightarrow> (\<forall>r \<in> set (readers st). now st + cancel_latency r \<le> now (snd c))) \<and>
            (\<forall>e. fst c = Some e \<longrightarrow>
               (\<exists>r \<in> set (readers st). cancel_failure r = Some e \<and>
                  now (snd c) = now st + cancel_latency r \<and>
                  (\<forall>r' \<in> set (readers st). cancel_failure r' \<noteq> None \<longrightarrow>
                     cancel_latency r \<le> cancel_latency r')))) \<and>
         (\<forall>i. i < length (readers st) \<and>
              (\<forall>j < i. \<exists>v. fst (reader_read (readers st ! j)) = ReadValue v) \<and>
              fst (reader_read (readers st ! i)) = ReadDone \<longrightarrow>
            (\<exists>t. now st \<le> t \<and>
               cancels (trace (stream_pull st)) =
                 cancels (trace st) @
                 map (\<lambda>j. CancelEv j (JsString (ended_message i)) t (t + cancel_latency (readers st ! j)))
                     [0..<length (readers st)] \<and>
               ((\<forall>r \<in> set (readers st). cancel_failure r = None) \<longrightarrow>
                  state (stream_pull st) = Closed \<and>
                  (\<forall>r \<in> set (readers st). t + cancel_latency r \<le> now (stream_pull st))) \<and>
               ((\<exists>r \<in> set (readers st). cancel_failure r \<noteq> None) \<longrightarrow>
                  (\<exists>r \<in> set (readers st). \<exists>e. cancel_failure r = Some e \<and>
                     state (stream_pull st) = Errored e \<and>
                     now (stream_pull st) = t + cancel_latency r \<and>
                     (\<forall>r' \<in> set (readers st). cancel_failure r' \<noteq> None \<longrightarrow>
                        cancel_latency r \<le> cancel_latency r')))))"
proof (intro conjI allI impI)
  let ?st = "st\<lparr> state := Closed, queue := [] \<rparr>"
  have sc: "stream_cancel x st = cancel_readers x ?st"
    using assms by (rule stream_cancel_Readable)
  show "let c = stream_cancel x st in
            trace (snd c) =
              trace st @ map (\<lambda>j. CancelEv j x (now st) (now st + cancel_latency (readers st ! j)))
                             [0..<length (readers st)] \<and>
            (fst c = None \<longleftrightarrow> (\<forall>r \<in> set (readers st). cancel_failure r = None)) \<and>
            (fst c = None \<longrightarrow> (\<forall>r \<in> set (readers st). now st + cancel_latency r \<le> now (snd c))) \<and>
            (\<forall>e. fst c = Some e \<longrightarrow>
               (\<exists>r \<in> set (readers st). cancel_failure r = Some e \<and>
                  now (snd c) = now st + cancel_latency r \<and>
                  (\<forall>r' \<in> set (readers st). cancel_failure r' \<noteq> None \<longrightarrow>
                     cancel_latency r \<le> cancel_latency r')))"
    unfolding Let_def sc
  proof (intro conjI allI impI ballI)
    show "trace (snd (cancel_readers x ?st)) =
            trace st @ map (\<lambda>j. CancelEv j x (now st) (now st + cancel_latency (readers st ! j)))
                           [0..<length (readers st)]"
      using cancel_readers_trace [of x ?st] by simp
    show "fst (cancel_readers x ?st) = None \<longleftrightarrow> (\<forall>r \<in> set (readers st). cancel_failure r = None)"
      using cancel_readers_ok [of x ?st] by simp
    show "now st + cancel_latency r \<le> now (snd (cancel_readers x ?st))"
      if "fst (cancel_readers x ?st) = None" "r \<in> set (readers st)" for r
      using cancel_readers_waits [of x ?st r] that by simp
    show "\<exists>r \<in> set (readers st). cancel_failure r = Some e \<and>
            now (snd (cancel_readers x ?st)) = now st + cancel_latency r \<and>
            (\<forall>r' \<in> set (readers st). cancel_failure r' \<noteq> None \<longrightarrow>
               cancel_latency r \<le> cancel_latency r')"
      if "fst (cancel_readers x ?st) = Some e" for e
      using cancel_readers_fails [of x ?st e] that by simp
  qed
next
  fix i
  assume a: "i < length (readers st) \<and>
              (\<forall>j < i. \<exists>v. fst (reader_read (readers st ! j)) = ReadValue v) \<and>
              fst (reader_read (readers st ! i)) = ReadDone"
  then have live: "\<forall>j < i. \<not> released (readers st ! j) \<and> chunks (readers st ! j) \<noteq> []"
    using live_of_values [of i st] by simp
  have il: "i < length (readers st)" and dn: "fst (reader_read (readers st ! i)) = ReadDone"
    using a by simp_all
  from exhausted_stream_pull [OF assms il live dn]
  show "\<exists>t. now st \<le> t \<and>
               cancels (trace (stream_pull st)) =
                 cancels (trace st) @
                 map (\<lambda>j. CancelEv j (JsString (ended_message i)) t (t + cancel_latency (readers st ! j)))
                     [0..<length (readers st)] \<and>
               ((\<forall>r \<in> set (readers st). cancel_failure r = None) \<longrightarrow>
                  state (stream_pull st) = Closed \<and>
                  (\<forall>r \<in> set (readers st). t + cancel_latency r \<le> now (stream_pull st))) \<and>
               ((\<exists>r \<in> set (readers st). cancel_failure r \<noteq> None) \<longrightarrow>
                  (\<exists>r \<in> set (readers st). \<exists>e. cancel_failure r = Some e \<and>
                     state (stream_pull st) = Errored e \<and>
                     now (stream_pull st) = t + cancel_latency r \<and>
                     (\<forall>r' \<in> set (readers st). cancel_failure r' \<noteq> None \<longrightarrow>
                        cancel_latency r \<le> cancel_latency r')))"
  proof (elim exE conjE)
    fix t
    assume t0: "now st \<le> t"
      and t1: "cancels (trace (stream_pull st)) =
             cancels (trace st) @
             map (\<lambda>j. CancelEv j (JsString (ended_message i)) t (t + cancel_latency (readers st ! j)))
                 [0..<length (readers st)]"
      and t4: "(\<forall>r \<in> set (readers st). cancel_failure r = None) \<longrightarrow>
             state (stream_pull st) = Closed \<and>
             queue (stream_pull st) = map (\<lambda>j. hd (chunks (readers st ! j))) [0..<i] \<and>
             (\<forall>r \<in> set (readers st). t + cancel_latency r \<le> now (stream_pull st))"
      and t5: "(\<exists>r \<in> set (readers st). cancel_failure r \<noteq> None) \<longrightarrow>
             (\<exists>r \<in> set (readers st). \<exists>e. cancel_failure r = Some e \<and>
                state (stream_pull st) = Errored e \<and>
                queue (stream_pull st) = [] \<and>
                now (stream_pull st) = t + cancel_latency r \<and>
                (\<forall>r' \<in> set (readers st). cancel_failure r' \<noteq> None \<longrightarrow>
                   cancel_latency r \<le> cancel_latency r'))"
    have b: "(\<forall>r \<in> set (readers st). cancel_failure r = None) \<longrightarrow>
               state (stream_pull st) = Closed \<and>
               (\<forall>r \<in> set (readers st). t + cancel_latency r \<le> now (stream_pull st))"
      using t4 by simp
    have c: "(\<exists>r \<in> set (readers st). cancel_failure r \<noteq> None) \<longrightarrow>
             (\<exists>r \<in> set (readers st). \<exists>e. cancel_failure r = Some e \<and>
                state (stream_pull st) = Errored e \<and>
                now (stream_pull st) = t + cancel_latency r \<and>
                (\<forall>r' \<in> set (readers st). cancel_failure r' \<noteq> None \<longrightarrow>
                   cancel_latency r \<le> cancel_latency r'))"
    proof
      assume "\<exists>r \<in> set (readers st). cancel_failure r \<noteq> None"
      with t5 obtain r e where r: "r \<in> set (readers st)" "cancel_failure r = Some e"
        "state (stream_pull st) = Errored e" "now (stream_pull st) = t + cancel_latency r"
        "\<forall>r' \<in> set (readers st). cancel_failure r' \<noteq> None \<longrightarrow> cancel_latency r \<le> cancel_latency r'"
        by blast
      show "\<exists>r \<in> set (readers st). \<exists>e. cancel_failure r = Some e \<and>
                state (stream_pull st) = Errored e \<and>
                now (stream_pull st) = t + cancel_latency r \<and>
                (\<forall>r' \<in> set (readers st). cancel_failure r' \<noteq> None \<longrightarrow>
                   cancel_latency r \<le> cancel_latency r')"
        by (intro bexI [of _ r] exI [of _ e] conjI) (use r in simp_all)
    qed
    show ?thesis using t0 t1 b c by (intro exI [of _ t] conjI)
  qed
qed

text \<open>C5 where both cancellations succeed: the merger's cancel ends at time 5.\<close>

theorem cancel_batch_settles_witness:
  "(let c = stream_cancel (JsString ''stop'')
              (earlyZipReadableStreams
                 [\<lparr> chunks = [''1''], ending = EndOfStream, released = False,
                    read_latency = 1, cancel_latency = 1, cancel_failure = None :: unit js_any option \<rparr>,
                  \<lparr> chunks = [''a''], ending = EndOfStream, released = False,
                    read_latency = 1, cancel_latency = 5, cancel_failure = None \<rparr>])
    in fst c = None \<and> now (snd c) = 5 \<and>
       trace (snd c) = [CancelEv 0 (JsString ''stop'') 0 1, CancelEv 1 (JsString ''stop'') 0 5])"
  using cancel_batch_settles [of "earlyZipReadableStreams
                 [\<lparr> chunks = [''1''], ending = EndOfStream, released = False,
                    read_latency = 1, cancel_latency = 1, cancel_failure = None :: unit js_any option \<rparr>,
                  \<lparr> chunks = [''a''], ending = EndOfStream, released = False,
                    read_latency = 1, cancel_latency = 5, cancel_failure = None \<rparr>]" "JsString ''stop''"]
  by (simp add: stream_cancel_def cancel_def earlyZipReadableStreams_def cancel_readers_def
        Promise_all_def Let_def enumerate_eq_zip upt_rec)

lemma reader_read_latency [simp]:
  "cancel_latency (snd (reader_read r)) = cancel_latency r"
  "read_latency (snd (reader_read r)) = read_latency r"
  by (cases "chunks r"; simp add: reader_read_def split: ending.splits)+

lemma map_latency_update:
  "i < length rs \<Longrightarrow>
   map cancel_latency (rs[i := snd (reader_read (rs ! i))]) = map cancel_latency rs"
  by (simp add: map_update list_update_same_conv)

lemma latency_reader_cancel: "cancel_latency \<circ> reader_cancel = cancel_latency"
  by (rule ext) (simp add: reader_cancel_def)

lemma cancel_calls_append [simp]: "cancel_calls (xs @ ys) = cancel_calls xs @ cancel_calls ys"
  by (simp add: cancel_calls_def)

lemma cancel_calls_ReadEv [simp]: "cancel_calls (ReadEv i a b # es) = cancel_calls es"
  by (simp add: cancel_calls_def cancels_def)

lemma cancel_calls_Nil [simp]: "cancel_calls [] = []"
  by (simp add: cancel_calls_def cancels_def)

lemma cancel_calls_CancelEvs [simp]:
  "cancel_calls (map (\<lambda>j. CancelEv j x (a j) (b j)) js) = map (\<lambda>j. (j, x, a j)) js"
  by (simp add: cancel_calls_def)

lemma cancel_readers_calls:
  "cancel_calls (trace (snd (cancel_readers x st))) =
     cancel_calls (trace st) @ map (\<lambda>j. (j, x, now st)) [0..<length (readers st)]"
  unfolding cancel_readers_trace by simp

lemma on_done_keeps [simp]:
  "readers (snd (on_done i st)) = map reader_cancel (readers st)"
  "trace (snd (on_done i st)) = trace (snd (cancel_readers (JsString (ended_message i)) st))"
  "queue (snd (on_done i st)) = queue st"
  "delivered (snd (on_done i st)) = delivered st"
  by (simp_all add: on_done_snd)

lemma on_done_state:
  "state (snd (on_done i st)) =
     (if fst (on_done i st) = None then Closed else state st)"
  by (simp add: on_done_fst on_done_snd split: option.splits)

lemma pull_from_keeps:
  "length (readers (snd (pull_from i st))) = length (readers st) \<and>
   map cancel_latency (readers (snd (pull_from i st))) = map cancel_latency (readers st) \<and>
   (fst (pull_from i st) = None \<and> state (snd (pull_from i st)) = Readable \<longrightarrow>
      cancels (trace (snd (pull_from i st))) = cancels (trace st))"
proof (induction i st rule: pull_from_induct)
  case (1 i st)
  show ?case
  proof (cases "i < length (readers st)")
    case False
    then show ?thesis by (simp add: pull_from_end)
  next
    case True
    show ?thesis
    proof (cases "fst (reader_read (readers st ! i))")
      case (ReadValue v)
      show ?thesis
      proof (cases "state st = Readable")
        case r: True
        let ?st = "(snd (read_reader i st))\<lparr> queue := queue st @ [v] \<rparr>"
        have pf: "pull_from i st = pull_from (Suc i) ?st"
          using True r ReadValue by (rule pull_from_value)
        have "length (readers ?st) = length (readers st)"
          "map cancel_latency (readers ?st) = map cancel_latency (readers st)"
          "cancels (trace ?st) = cancels (trace st)"
          using True by (simp_all add: map_latency_update)
        then show ?thesis using "1.IH" [OF True r ReadValue] unfolding pf by simp
      next
        case False
        then show ?thesis
          using True ReadValue by (simp add: pull_from_value_unreadable map_latency_update)
      qed
    next
      case ReadDone
      show ?thesis
        using True ReadDone
        by (auto simp: pull_from_done on_done_state map_latency_update latency_reader_cancel)
    next
      case (ReadRejected e)
      show ?thesis
        using True ReadRejected by (simp add: pull_from_rejected map_latency_update)
    qed
  qed
qed

lemma pull_from_closes:
  assumes "state st = Readable" and "state (snd (pull_from i st)) = Closed"
  shows "\<exists>d t. cancel_calls (trace (snd (pull_from i st))) =
           cancel_calls (trace st) @
           map (\<lambda>j. (j, JsString (ended_message d), t)) [0..<length (readers st)]"
  using assms
proof (induction i st rule: pull_from_induct)
  case (1 i st)
  show ?case
  proof (cases "i < length (readers st)")
    case False
    then show ?thesis using "1.prems" by (simp add: pull_from_end)
  next
    case True
    show ?thesis
    proof (cases "fst (reader_read (readers st ! i))")
      case (ReadValue v)
      let ?st = "(snd (read_reader i st))\<lparr> queue := queue st @ [v] \<rparr>"
      have pf: "pull_from i st = pull_from (Suc i) ?st"
        using True "1.prems"(1) ReadValue by (rule pull_from_value)
      have "\<exists>d t. cancel_calls (trace (snd (pull_from (Suc i) ?st))) =
           cancel_calls (trace ?st) @
           map (\<lambda>j. (j, JsString (ended_message d), t)) [0..<length (readers ?st)]"
        by (rule "1.IH" [OF True "1.prems"(1) ReadValue]) (use "1.prems" pf in simp_all)
      then show ?thesis unfolding pf by simp
    next
      case ReadDone
      have "cancel_calls (trace (snd (pull_from i st))) =
              cancel_calls (trace st) @
              map (\<lambda>j. (j, JsString (ended_message i), now (snd (read_reader i st))))
                  [0..<length (readers st)]"
        using True ReadDone by (simp add: pull_from_done map_enumerate)
      then show ?thesis by blast
    next
      case (ReadRejected e)
      then show ?thesis using True "1.prems" by (simp add: pull_from_rejected)
    qed
  qed
qed

lemma stream_pull_Readable:
  assumes "state (stream_pull st) = Readable"
  shows "state st = Readable \<and> fst (pull (consume st)) = None \<and>
         stream_pull st = snd (pull (consume st))"
proof -
  have r: "state st = Readable"
    using assms by (cases "state st = Readable") (simp_all add: stream_pull_alt)
  have "fst (pull (consume st)) = None"
    using assms r by (cases "fst (pull (consume st))") (simp_all add: stream_pull_alt split: if_splits)
  then show ?thesis using r by (simp add: stream_pull_alt)
qed

lemma stream_pull_terminal: "state st \<noteq> Readable \<Longrightarrow> (stream_pull ^^ k) st = st"
  by (induction k) (simp_all add: stream_pull_def)

lemma reachable_length:
  "length (readers ((stream_pull ^^ m) (earlyZipReadableStreams streams))) = length streams"
proof (induction m)
  case 0
  show ?case by (simp add: earlyZipReadableStreams_def)
next
  case (Suc m)
  let ?st = "(stream_pull ^^ m) (earlyZipReadableStreams streams)"
  have "length (readers (stream_pull ?st)) = length (readers ?st)"
    using pull_from_keeps [of 0 "consume ?st"]
    by (simp add: stream_pull_alt pull_def split: option.splits)
  then show ?case using Suc by simp
qed

lemma readable_no_cancels:
  assumes "state ((stream_pull ^^ m) (earlyZipReadableStreams streams)) = Readable"
  shows "cancels (trace ((stream_pull ^^ m) (earlyZipReadableStreams streams))) = []"
  using assms
proof (induction m)
  case 0
  then show ?case by (simp add: earlyZipReadableStreams_def cancels_def)
next
  case (Suc m)
  let ?st = "(stream_pull ^^ m) (earlyZipReadableStreams streams)"
  have sp: "state (stream_pull ?st) = Readable" using Suc.prems by simp
  note r = stream_pull_Readable [OF sp]
  have ih: "cancels (trace ?st) = []" using Suc.IH r by simp
  have st: "stream_pull ?st = snd (pull_from 0 (consume ?st))"
    "fst (pull_from 0 (consume ?st)) = None"
    using r by (simp_all add: pull_def)
  have "state (snd (pull_from 0 (consume ?st))) = Readable" using sp st by simp
  then have "cancels (trace (snd (pull_from 0 (consume ?st)))) = cancels (trace (consume ?st))"
    using pull_from_keeps [of 0 "consume ?st"] st(2) by simp
  then show ?case using ih st(1) by simp
qed

lemma closed_cancelled_once:
  assumes "state ((stream_pull ^^ m) (earlyZipReadableStreams streams)) = Closed"
  shows "\<exists>d t. cancel_calls (trace ((stream_pull ^^ m) (earlyZipReadableStreams streams))) =
           map (\<lambda>j. (j, JsString (ended_message d), t)) [0..<length streams]"
  using assms
proof (induction m)
  case 0
  then show ?case by (simp add: earlyZipReadableStreams_def)
next
  case (Suc m)
  let ?st = "(stream_pull ^^ m) (earlyZipReadableStreams streams)"
  show ?case
  proof (cases "state ?st = Readable")
    case False
    then have "stream_pull ?st = ?st" by (simp add: stream_pull_def)
    then show ?thesis using Suc by simp
  next
    case True
    let ?c = "consume ?st"
    have cl: "state (stream_pull ?st) = Closed" using Suc.prems by simp
    have nc: "cancel_calls (trace ?st) = []"
      using readable_no_cancels [OF True] by (simp add: cancel_calls_def)
    have len: "length (readers ?st) = length streams" by (rule reachable_length)
    have sp: "stream_pull ?st = snd (pull_from 0 ?c)"
      using cl True
      by (cases "fst (pull ?c)") (simp_all add: stream_pull_alt pull_def split: if_splits)
    have "\<exists>d t. cancel_calls (trace (snd (pull_from 0 ?c))) =
           cancel_calls (trace ?c) @
           map (\<lambda>j. (j, JsString (ended_message d), t)) [0..<length (readers ?c)]"
      by (rule pull_from_closes) (use True cl sp in simp_all)
    then show ?thesis using sp nc len by simp
  qed
qed

lemma reads_ReadEv [simp]: "reads (ReadEv i a b # es) = ReadEv i a b # reads es"
  by (simp add: reads_def)

lemma reads_Nil [simp]: "reads [] = []"
  by (simp add: reads_def)

lemma cancel_readers_reads: "reads (trace (snd (cancel_readers x st))) = reads (trace st)"
  by (simp add: map_enumerate)

lemma stream_cancel_queued:
  "state st = Closed \<Longrightarrow> queue st \<noteq> [] \<Longrightarrow>
   stream_cancel x st = cancel_readers x (st\<lparr> queue := [] \<rparr>)"
  by (simp add: stream_cancel_def cancel_def)

lemma stream_cancel_live:
  assumes "state st = Readable \<or> state st = Closed \<and> queue st \<noteq> []"
  shows "cancel_calls (trace (snd (stream_cancel x st))) =
           cancel_calls (trace st) @ map (\<lambda>j. (j, x, now st)) [0..<length (readers st)] \<and>
         reads (trace (snd (stream_cancel x st))) = reads (trace st) \<and>
         state (snd (stream_cancel x st)) = Closed \<and>
         queue (snd (stream_cancel x st)) = [] \<and>
         readers (snd (stream_cancel x st)) = map reader_cancel (readers st)"
proof -
  obtain st' where c: "stream_cancel x st = cancel_readers x st'" and
    f: "trace st' = trace st" "now st' = now st" "readers st' = readers st"
       "state st' = Closed" "queue st' = []"
  proof (cases "state st = Readable")
    case True
    show ?thesis
      by (rule that [of "st\<lparr> state := Closed, queue := [] \<rparr>"])
         (use True in \<open>simp_all add: stream_cancel_Readable\<close>)
  next
    case False
    show ?thesis
      by (rule that [of "st\<lparr> queue := [] \<rparr>"])
         (use False assms in \<open>simp_all add: stream_cancel_queued\<close>)
  qed
  have "cancel_calls (trace (snd (cancel_readers x st'))) =
          cancel_calls (trace st') @ map (\<lambda>j. (j, x, now st')) [0..<length (readers st')]"
    by (rule cancel_readers_calls)
  moreover have "reads (trace (snd (cancel_readers x st'))) = reads (trace st')"
    by (rule cancel_readers_reads)
  ultimately show ?thesis unfolding c using f by simp
qed

lemma settled_stream:
  assumes "state st = Closed" and "queue st = []"
  shows "(\<forall>k. (stream_pull ^^ k) st = st) \<and> drain st = Some st"
proof -
  have "drain st = Some (consume st)" using assms(1) by (subst drain.simps) simp
  then show ?thesis using assms by (simp add: stream_pull_terminal consume_empty)
qed

lemma on_done_unreadable:
  assumes "state st \<noteq> Readable"
  shows "state (snd (on_done i st)) = state st"
  using assms by (simp add: on_done_snd)

lemma cancelled_read_done:
  assumes "state s = Readable \<or> state s = Closed \<and> queue s \<noteq> []" and "i < length (readers s)"
  shows "fst (reader_read (readers (snd (stream_cancel x s)) ! i)) = ReadDone"
proof -
  have "readers (snd (stream_cancel x s)) ! i = reader_cancel (readers s ! i)"
    using stream_cancel_live [OF assms(1), of x] assms(2) by simp
  then show ?thesis by (simp add: reader_cancel_def reader_read_def)
qed

lemma cancel_during_read_calls:
  assumes "state s = Readable"
  shows "cancel_calls (trace (snd (cancel_during_read i x s))) =
           cancel_calls (trace s) @
           map (\<lambda>j. (j, x, now s)) [0..<length (readers s)] @
           map (\<lambda>j. (j, JsString (ended_message i), now s)) [0..<length (readers s)] \<and>
         reads (trace (snd (cancel_during_read i x s))) =
           reads (trace s) @ [ReadEv i (now s) (now s)] \<and>
         state (snd (cancel_during_read i x s)) = Closed \<and>
         queue (snd (cancel_during_read i x s)) = []"
proof -
  let ?s1 = "s\<lparr> trace := trace s @ [ReadEv i (now s) (now s)] \<rparr>"
  let ?c = "stream_cancel x ?s1"
  let ?s2 = "(snd ?c)\<lparr> now := now s \<rparr>"
  have l: "state ?s1 = Readable \<or> state ?s1 = Closed \<and> queue ?s1 \<noteq> []"
    using assms by simp
  note c = stream_cancel_live [OF l, of x]
  have c1: "cancel_calls (trace (snd ?c)) =
              cancel_calls (trace s) @ map (\<lambda>j. (j, x, now s)) [0..<length (readers s)]"
    and c2: "reads (trace (snd ?c)) = reads (trace s) @ [ReadEv i (now s) (now s)]"
    and c3: "state (snd ?c) = Closed" and c4: "queue (snd ?c) = []"
    and c5: "length (readers (snd ?c)) = length (readers s)"
    using c by simp_all
  have p1: "cancel_calls (trace (snd (on_done i ?s2))) =
              cancel_calls (trace ?s2) @
              map (\<lambda>j. (j, JsString (ended_message i), now ?s2)) [0..<length (readers ?s2)]"
    by (simp only: on_done_keeps cancel_readers_calls)
  have p2: "reads (trace (snd (on_done i ?s2))) = reads (trace ?s2)"
    by (simp only: on_done_keeps cancel_readers_reads)
  have p3: "state (snd (on_done i ?s2)) = Closed"
    using c3 by (simp add: on_done_unreadable)
  have p4: "queue (snd (on_done i ?s2)) = []" using c4 by simp
  have r: "snd (cancel_during_read i x s) =
             (snd (on_done i ?s2))\<lparr> now := max (now (snd ?c)) (now (snd (on_done i ?s2))) \<rparr>"
    by (simp add: cancel_during_read_def Let_def)
  show ?thesis unfolding r using p1 p2 p3 p4 c1 c2 c5 by simp
qed

lemma cancel_during_batch_calls:
  assumes "state s = Readable"
  shows "cancel_calls (trace (snd (cancel_during_batch i x s))) =
           cancel_calls (trace s) @
           map (\<lambda>j. (j, JsString (ended_message i), now s)) [0..<length (readers s)] @
           map (\<lambda>j. (j, x, now s)) [0..<length (readers s)] \<and>
         reads (trace (snd (cancel_during_batch i x s))) = reads (trace s) \<and>
         state (snd (cancel_during_batch i x s)) = Closed \<and>
         queue (snd (cancel_during_batch i x s)) = []"
proof -
  let ?b = "cancel_readers (JsString (ended_message i)) s"
  let ?s1 = "(snd ?b)\<lparr> now := now s \<rparr>"
  let ?c = "stream_cancel x ?s1"
  have b1: "cancel_calls (trace ?s1) =
              cancel_calls (trace s) @
              map (\<lambda>j. (j, JsString (ended_message i), now s)) [0..<length (readers s)]"
    using cancel_readers_calls [of "JsString (ended_message i)" s] by simp
  have b2: "reads (trace ?s1) = reads (trace s)"
    using cancel_readers_reads [of "JsString (ended_message i)" s] by simp
  have l: "state ?s1 = Readable \<or> state ?s1 = Closed \<and> queue ?s1 \<noteq> []"
    using assms by simp
  note c = stream_cancel_live [OF l, of x]
  have c1: "cancel_calls (trace (snd ?c)) =
              cancel_calls (trace ?s1) @ map (\<lambda>j. (j, x, now s)) [0..<length (readers s)]"
    and c2: "reads (trace (snd ?c)) = reads (trace ?s1)"
    and c3: "state (snd ?c) = Closed" and c4: "queue (snd ?c) = []"
    using c by simp_all
  have p: "snd (close_after (fst ?b) (snd ?c)) = snd ?c"
    using c3 by (simp add: close_after_def controller_close_def split: option.splits)
  have r: "snd (cancel_during_batch i x s) =
             (snd ?c)\<lparr> now := max (now (snd ?b)) (now (snd ?c)) \<rparr>"
    by (simp add: cancel_during_batch_def Let_def p)
  show ?thesis unfolding r using c1 c2 c3 c4 b1 b2 by simp
qed




lemma sequential_snoc:
  "sequential t (es @ [e]) \<longleftrightarrow>
     sequential t es \<and> last_settled t es \<le> issued e \<and> issued e \<le> settled e"
  by (induction es arbitrary: t) auto

lemma last_settled_snoc: "last_settled t (es @ [e]) = settled e"
  by (induction es arbitrary: t) auto

lemma cancel_readers_now: "now st \<le> now (snd (cancel_readers x st))"
proof (cases "fst (cancel_readers x st)")
  case None
  let ?ps = "map (\<lambda>r. (now st + cancel_latency r, cancel_failure r)) (readers st)"
  have "first_rejection ?ps = None"
    using None by (simp add: cancel_readers_ok first_rejection_None)
  then have "now (snd (cancel_readers x st)) = fold max (map fst ?ps) (now st)"
    by (simp add: cancel_readers_def Let_def Promise_all_def)
  then show ?thesis using fold_max_ge [of "now st" "map fst ?ps"] by simp
next
  case (Some e)
  then show ?thesis using cancel_readers_fails [of x st e] by auto
qed

lemma cyclic_snoc:
  assumes "cyclic n es" and "length es = q * n + i" and "i < n"
  shows "cyclic n (es @ [ReadEv i a b])"
proof -
  have "(q * n + i) mod n = i" using assms(3) by simp
  then show ?thesis using assms(1,2) by (simp add: cyclic_def)
qed

lemma ordered_read:
  assumes "ordered n st" and "length (reads (trace st)) = q * n + i" and "i < n"
  shows "ordered n (snd (read_reader i st))"
  using assms cyclic_snoc [of n "reads (trace st)" q i]
  by (simp add: ordered_def sequential_snoc last_settled_snoc)

lemma ordered_queue [simp]: "ordered n (st\<lparr> queue := x \<rparr>) = ordered n st"
  by (simp add: ordered_def)

lemma ordered_state [simp]: "ordered n (st\<lparr> state := x \<rparr>) = ordered n st"
  by (simp add: ordered_def)

lemma ordered_consume [simp]: "ordered n (consume st) = ordered n st"
  by (simp add: ordered_def)

lemma ordered_cancel:
  assumes "ordered n st" shows "ordered n (snd (cancel_readers x st))"
proof -
  have "last_settled 0 (reads (trace st)) \<le> now (snd (cancel_readers x st))"
    using assms cancel_readers_now [of st x] by (simp add: ordered_def)
  then show ?thesis using assms unfolding ordered_def cancel_readers_reads by simp
qed

lemma pull_from_ordered:
  assumes "ordered n st" and "length (reads (trace st)) = q * n + i"
    and "i \<le> n" and "n = length (readers st)"
  shows "ordered n (snd (pull_from i st)) \<and>
         (fst (pull_from i st) = None \<and> state (snd (pull_from i st)) = Readable \<longrightarrow>
            n dvd length (reads (trace (snd (pull_from i st)))))"
  using assms
proof (induction i st rule: pull_from_induct)
  case (1 i st)
  show ?case
  proof (cases "i < length (readers st)")
    case False
    then have "i = n" using "1.prems"(3,4) by simp
    then have "n dvd length (reads (trace st))" using "1.prems"(2) by simp
    then show ?thesis using False "1.prems"(1) by (simp add: pull_from_end)
  next
    case True
    then have lt: "i < n" using "1.prems"(4) by simp
    have o: "ordered n (snd (read_reader i st))"
      using "1.prems"(1,2) lt by (rule ordered_read)
    show ?thesis
    proof (cases "fst (reader_read (readers st ! i))")
      case (ReadValue v)
      show ?thesis
      proof (cases "state st = Readable")
        case r: True
        let ?st = "(snd (read_reader i st))\<lparr> queue := queue st @ [v] \<rparr>"
        have pf: "pull_from i st = pull_from (Suc i) ?st"
          using True r ReadValue by (rule pull_from_value)
        have "ordered n (snd (pull_from (Suc i) ?st)) \<and>
           (fst (pull_from (Suc i) ?st) = None \<and> state (snd (pull_from (Suc i) ?st)) = Readable \<longrightarrow>
              n dvd length (reads (trace (snd (pull_from (Suc i) ?st)))))"
        proof (rule "1.IH" [OF True r ReadValue])
          show "ordered n ?st" using o by simp
          show "length (reads (trace ?st)) = q * n + Suc i" using "1.prems"(2) by simp
          show "Suc i \<le> n" using lt by simp
          show "n = length (readers ?st)" using "1.prems"(4) by simp
        qed
        then show ?thesis unfolding pf .
      next
        case False
        then show ?thesis
          using True ReadValue o by (simp add: pull_from_value_unreadable)
      qed
    next
      case ReadDone
      let ?c = "cancel_readers (JsString (ended_message i)) (snd (read_reader i st))"
      have "ordered n (snd ?c)" using o by (rule ordered_cancel)
      then have "ordered n (snd (on_done i (snd (read_reader i st))))"
        by (simp add: on_done_snd)
      then show ?thesis
        using True ReadDone by (auto simp: pull_from_done on_done_state)
    next
      case (ReadRejected e)
      then show ?thesis using True o by (simp add: pull_from_rejected)
    qed
  qed
qed

lemma well_ordered_stream_pull:
  assumes "well_ordered n st" shows "well_ordered n (stream_pull st)"
proof (cases "state st = Readable")
  case False
  then show ?thesis using assms by (simp add: stream_pull_def)
next
  case True
  let ?c = "consume st"
  have o: "ordered n ?c" and len: "n = length (readers ?c)"
    and d: "n dvd length (reads (trace ?c))"
    using assms True by (simp_all add: well_ordered_def)
  from d obtain k where "length (reads (trace ?c)) = n * k" by (rule dvdE)
  then have q: "length (reads (trace ?c)) = k * n + 0" by (simp add: mult.commute)
  note p = pull_from_ordered [OF o q _ len]
  note k = pull_from_keeps [of 0 ?c]
  show ?thesis
  proof (cases "fst (pull ?c)")
    case None
    then have "stream_pull st = snd (pull_from 0 ?c)"
      using True by (simp add: stream_pull_alt pull_def)
    then show ?thesis using p k None len by (simp add: well_ordered_def pull_def)
  next
    case (Some e)
    show ?thesis
    proof (cases "state (snd (pull ?c)) = Readable")
      case r: True
      then have "stream_pull st = (snd (pull_from 0 ?c))\<lparr> state := Errored e, queue := [] \<rparr>"
        using True Some by (simp add: stream_pull_alt pull_def)
      then show ?thesis using p k len by (simp add: well_ordered_def ordered_def)
    next
      case False
      then have "stream_pull st = snd (pull_from 0 ?c)"
        using True Some by (simp add: stream_pull_alt pull_def)
      then show ?thesis using p k len False by (simp add: well_ordered_def pull_def)
    qed
  qed
qed

lemma well_ordered_reachable:
  "well_ordered (length streams) ((stream_pull ^^ m) (earlyZipReadableStreams streams))"
proof (induction m)
  case 0
  show ?case
    by (simp add: well_ordered_def ordered_def cyclic_def earlyZipReadableStreams_def reads_def)
next
  case (Suc m)
  then show ?case by (simp add: well_ordered_stream_pull)
qed

text \<open>
  Claim C8.  However many times the host pulls, the reads the merger has made ran one
  after the other: each was issued only when the one before it had settled, and they go
  round the sources in index order, so that a round starts only when the round before it
  has read its last source.  A stream that is still readable has completed whole rounds
  only; one that a round has terminated is read no more.
\<close>

theorem reads_in_sequence:
  "let st = (stream_pull ^^ m) (earlyZipReadableStreams streams); rs = reads (trace st) in
     sequential 0 rs \<and>
     map source rs = map (\<lambda>j. j mod length streams) [0..<length rs] \<and>
     (if state st = Readable then length streams dvd length rs
      else reads (trace (stream_pull st)) = rs)"
proof -
  let ?st = "(stream_pull ^^ m) (earlyZipReadableStreams streams)"
  have w: "well_ordered (length streams) ?st" by (rule well_ordered_reachable)
  have "state ?st \<noteq> Readable \<Longrightarrow> stream_pull ?st = ?st" by (simp add: stream_pull_def)
  then show ?thesis using w
    by (auto simp: Let_def well_ordered_def ordered_def cyclic_def)
qed

text \<open>C8 on two pulls over a source of one chunk and a source of two.\<close>

theorem reads_in_sequence_witness:
  "(let st = (stream_pull ^^ Suc (Suc 0)) (earlyZipReadableStreams
                 [\<lparr> chunks = [''1''], ending = EndOfStream, released = False,
                    read_latency = 1, cancel_latency = 2, cancel_failure = None :: unit js_any option \<rparr>,
                  \<lparr> chunks = [''a'', ''b''], ending = EndOfStream, released = False,
                    read_latency = 2, cancel_latency = 3, cancel_failure = None \<rparr>])
    in reads (trace st) = [ReadEv 0 0 1, ReadEv 1 1 3, ReadEv 0 3 4] \<and> state st = Closed \<and>
       sequential 0 (reads (trace st)))"
  using reads_in_sequence [of "Suc (Suc 0)"
           "[\<lparr> chunks = [''1''], ending = EndOfStream, released = False,
                    read_latency = 1, cancel_latency = 2, cancel_failure = None :: unit js_any option \<rparr>,
                  \<lparr> chunks = [''a'', ''b''], ending = EndOfStream, released = False,
                    read_latency = 2, cancel_latency = 3, cancel_failure = None \<rparr>]"]
  by (simp add: stream_pull_def pull_def earlyZipReadableStreams_def read_reader_def
        reader_read_def cancel_readers_def Promise_all_def reader_cancel_def pull_from.simps
        consume_def controller_enqueue_def controller_close_def on_done_def close_after_def
        Let_def reads_def enumerate_eq_zip upt_rec)

end
